theory Spec2Isabelle
  imports Main "HOL-Library.Word"
begin

section \<open>Native objects and machine integers\<close>

text \<open>
  The embedding follows \<^verbatim>\<open>src/video/include/ait/video/GstreamerPipeline.h\<close>.
  Member names of the source end in an underscore (\<^verbatim>\<open>ptr_\<close>, \<^verbatim>\<open>queue_\<close>); Isabelle
  does not admit such names, so the underscore is dropped and nothing else is changed.

  \<^verbatim>\<open>guint64\<close> and \<^verbatim>\<open>size_t\<close> are 64-bit words, \<^verbatim>\<open>unsigned int\<close> and \<^verbatim>\<open>int\<close> are
  32-bit words (an \<^verbatim>\<open>int\<close> is read through \<open>sint\<close>); \<open>+\<close> wraps as in the source.
  The length of a \<^verbatim>\<open>std::deque\<close> is a natural number.
\<close>

type_synonym guint64 = "64 word"
type_synonym guint = "32 word"
type_synonym gint = "32 word"

text \<open>
  A \<^verbatim>\<open>GstBuffer\<close> as far as the header touches it: the five timing fields behind the
  \<^verbatim>\<open>GST_BUFFER_*\<close> macros, the correspondence meta (absent, or an \<^verbatim>\<open>int\<close> id) and the
  payload bytes. Buffers are values here; reference counts are not part of the model.
\<close>

record GstBuffer =
  GST_BUFFER_PTS :: guint64
  GST_BUFFER_DTS :: guint64
  GST_BUFFER_DURATION :: guint64
  GST_BUFFER_OFFSET :: guint64
  GST_BUFFER_OFFSET_END :: guint64
  correspondence_meta :: "gint option"
  memory :: "8 word list"

datatype GstMapFlags = GST_MAP_READ | GST_MAP_WRITE

record GstMapInfo =
  map_flags :: GstMapFlags
  map_data :: "8 word list"
  map_size :: guint64

text \<open>The exceptions of the header, and the two ways of leaving the contract.\<close>

datatype error =
    RuntimeError               \<comment> \<open>\<^verbatim>\<open>std::runtime_error\<close>\<close>
  | BufferError                \<comment> \<open>\<^verbatim>\<open>GstBufferWrapper::Error\<close>\<close>
  | QueueError                 \<comment> \<open>\<^verbatim>\<open>AppSrcSinkQueue::Error\<close>\<close>
  | AssertionFailure           \<comment> \<open>\<^verbatim>\<open>AIT_ASSERT\<close> fails\<close>
  | UndefinedBehaviour         \<comment> \<open>\<^verbatim>\<open>front()\<close> or \<^verbatim>\<open>pop_front()\<close> of an empty deque\<close>

section \<open>GstBufferWrapper\<close>

text \<open>
  \<^verbatim>\<open>GstBufferWrapper\<close> with the \<^verbatim>\<open>ptr_\<close> of its base class \<^verbatim>\<open>GstWrapper<GstBuffer>\<close>.
  \<^verbatim>\<open>nullptr\<close> is \<open>None\<close>. The constructors leave \<^verbatim>\<open>info_\<close> uninitialised, which is
  \<open>None\<close> as well.
\<close>

record GstBufferWrapper =
  ptr :: "GstBuffer option"
  info :: "GstMapInfo option"
  mapped :: bool
  mapped_writable :: bool
  owns_buffer :: bool

text \<open>The calls into GStreamer a wrapper makes when it lets go of its buffer.\<close>

datatype gst_call =
    gst_buffer_unmap "GstBuffer option"
  | gst_buffer_unref "GstBuffer option"

definition GstBufferWrapper_ctor :: "GstBuffer option \<Rightarrow> GstBufferWrapper" where
  "GstBufferWrapper_ctor p =
     \<lparr>ptr = p, info = None, mapped = False, mapped_writable = False, owns_buffer = True\<rparr>"

definition GstBufferWrapper_ctor2 :: "GstBuffer option \<Rightarrow> bool \<Rightarrow> GstBufferWrapper" where
  "GstBufferWrapper_ctor2 p owns =
     \<lparr>ptr = p, info = None, mapped = False, mapped_writable = False, owns_buffer = owns\<rparr>"

definition unmap :: "GstBufferWrapper \<Rightarrow> gst_call list \<times> GstBufferWrapper" where
  "unmap w = ([gst_buffer_unmap (ptr w)], w\<lparr>mapped := False, mapped_writable := False\<rparr>)"

text \<open>\<^verbatim>\<open>GstBufferWrapper::unref\<close>, the override the base class and the destructor call.\<close>

definition unref :: "GstBufferWrapper \<Rightarrow> gst_call list \<times> GstBufferWrapper" where
  "unref w =
     (if ptr w \<noteq> None then
        (let (c1, w1) = (if mapped w then unmap w else ([], w));
             c2 = (if owns_buffer w1 then [gst_buffer_unref (ptr w1)] else [])
         in (c1 @ c2, w1))
      else ([], w))"

text \<open>The destructor: the GStreamer calls the wrapper's end of life makes.\<close>

definition GstBufferWrapper_dtor :: "GstBufferWrapper \<Rightarrow> gst_call list" where
  "GstBufferWrapper_dtor w = fst (unref w)"

text \<open>
  The move constructor: \<^verbatim>\<open>GstWrapper(std::move(other))\<close> takes the pointer and nulls the
  source's, then the four members are copied. It returns the new wrapper and what is left
  of \<^verbatim>\<open>other\<close>.
\<close>

definition GstBufferWrapper_move_ctor ::
    "GstBufferWrapper \<Rightarrow> GstBufferWrapper \<times> GstBufferWrapper" where
  "GstBufferWrapper_move_ctor other =
     (let this_ptr = ptr other;
          other1 = other\<lparr>ptr := None\<rparr>
      in (\<lparr>ptr = this_ptr, info = info other1, mapped = mapped other1,
           mapped_writable = mapped_writable other1, owns_buffer = owns_buffer other1\<rparr>,
          other1))"

text \<open>
  Move assignment: \<^verbatim>\<open>GstWrapper::operator=\<close> runs the virtual \<^verbatim>\<open>unref()\<close> on the
  destination, takes the pointer and nulls the source's; then \<^verbatim>\<open>owns_buffer_\<close>,
  \<^verbatim>\<open>info_\<close> and \<^verbatim>\<open>mapped_\<close> are copied, and nothing else. It returns the calls made,
  the destination and what is left of \<^verbatim>\<open>other\<close>.
\<close>

definition GstBufferWrapper_move_assign ::
    "GstBufferWrapper \<Rightarrow> GstBufferWrapper \<Rightarrow> gst_call list \<times> GstBufferWrapper \<times> GstBufferWrapper" where
  "GstBufferWrapper_move_assign this other =
     (let (calls, this1) = unref this;
          this2 = this1\<lparr>ptr := ptr other\<rparr>;
          other1 = other\<lparr>ptr := None\<rparr>;
          this3 = this2\<lparr>owns_buffer := owns_buffer other1, info := info other1,
                        mapped := mapped other1\<rparr>
      in (calls, this3, other1))"

text \<open>
  \<^verbatim>\<open>gst_buffer_map\<close>: whether the native buffer can be locked is decided outside the
  program, so it is the parameter \<open>ok\<close>; a null buffer is never mapped.
\<close>

definition gst_buffer_map :: "bool \<Rightarrow> GstBuffer option \<Rightarrow> GstMapFlags \<Rightarrow> GstMapInfo option" where
  "gst_buffer_map ok p flags =
     (case p of
        None \<Rightarrow> None
      | Some b \<Rightarrow>
          if ok then Some \<lparr>map_flags = flags, map_data = memory b,
                          map_size = of_nat (length (memory b))\<rparr>
          else None)"

text \<open>
  \<^verbatim>\<open>GstBufferWrapper::map\<close>, named \<open>map_buffer\<close> here since \<open>map\<close> is taken, and
  \<^verbatim>\<open>mapWritable\<close>. A failed \<^verbatim>\<open>map\<close> leaves the wrapper as it was; a failed
  \<^verbatim>\<open>mapWritable\<close> may have unmapped it first, so it returns the wrapper as well.
\<close>

definition map_buffer :: "bool \<Rightarrow> GstBufferWrapper \<Rightarrow> error + GstBufferWrapper" where
  "map_buffer ok w =
     (if \<not> mapped w then
        (case gst_buffer_map ok (ptr w) GST_MAP_READ of
           None \<Rightarrow> Inl BufferError
         | Some i \<Rightarrow> Inr (w\<lparr>info := Some i, mapped := True\<rparr>))
      else Inr w)"

definition mapWritable ::
    "bool \<Rightarrow> GstBufferWrapper \<Rightarrow> gst_call list \<times> (error + unit) \<times> GstBufferWrapper" where
  "mapWritable ok w =
     (if \<not> mapped_writable w then
        (let (c, w1) = (if mapped w then unmap w else ([], w))
         in case gst_buffer_map ok (ptr w1) GST_MAP_WRITE of
              None \<Rightarrow> (c, Inl BufferError, w1)
            | Some i \<Rightarrow> (c, Inr (), w1\<lparr>info := Some i, mapped := True, mapped_writable := True\<rparr>))
      else ([], Inr (), w))"

definition ensureMapped :: "bool \<Rightarrow> GstBufferWrapper \<Rightarrow> error + GstBufferWrapper" where
  "ensureMapped ok w = (if \<not> mapped w then map_buffer ok w else Inr w)"

text \<open>
  \<^verbatim>\<open>getSize\<close>: the size read from \<^verbatim>\<open>info_\<close>. A wrapper that says it is mapped and has
  no map info (as after a move from a wrapper never mapped) reads an uninitialised member.
\<close>

definition getSize :: "bool \<Rightarrow> GstBufferWrapper \<Rightarrow> error + (guint64 \<times> GstBufferWrapper)" where
  "getSize ok w =
     (case ensureMapped ok w of
        Inl e \<Rightarrow> Inl e
      | Inr w1 \<Rightarrow>
          (case info w1 of
             None \<Rightarrow> Inl UndefinedBehaviour
           | Some i \<Rightarrow> Inr (map_size i, w1)))"

text \<open>
  \<^verbatim>\<open>std::swap(a, b)\<close> on two wrappers: \<^verbatim>\<open>T tmp(std::move(a)); a = std::move(b);
  b = std::move(tmp);\<close> and the end of \<^verbatim>\<open>tmp\<close>.
\<close>

definition swap_wrappers ::
    "GstBufferWrapper \<Rightarrow> GstBufferWrapper \<Rightarrow> GstBufferWrapper \<times> GstBufferWrapper" where
  "swap_wrappers a b =
     (let (tmp, a1) = GstBufferWrapper_move_ctor a;
          (c1, a2, b1) = GstBufferWrapper_move_assign a1 b;
          (c2, b2, tmp1) = GstBufferWrapper_move_assign b1 tmp
      in (a2, b2))"

section \<open>SPSCFixedQueue\<close>

text \<open>
  The queue with its bound and its drain flag. The mutex is not modelled: every operation
  below is one atomic step, and what other threads do while a producer waits is given as a
  schedule. The two condition variables are counters of \<^verbatim>\<open>notify_one\<close> calls.
\<close>

record 'a SPSCFixedQueue =
  queue :: "'a list"
  max_queue_size :: guint
  discard_everything :: bool
  queue_filled_condition :: nat
  queue_space_available_condition :: nat

definition SPSCFixedQueue_ctor :: "guint \<Rightarrow> 'a SPSCFixedQueue" where
  "SPSCFixedQueue_ctor n =
     \<lparr>queue = [], max_queue_size = n, discard_everything = False,
      queue_filled_condition = 0, queue_space_available_condition = 0\<rparr>"

definition setDiscardEverything :: "bool \<Rightarrow> 'a SPSCFixedQueue \<Rightarrow> 'a SPSCFixedQueue" where
  "setDiscardEverything b q = q\<lparr>discard_everything := b\<rparr>"

definition clear :: "'a SPSCFixedQueue \<Rightarrow> 'a SPSCFixedQueue" where
  "clear q = q\<lparr>queue := []\<rparr>"

definition popFrontWithoutLocking :: "'a SPSCFixedQueue \<Rightarrow> (error + 'a) \<times> 'a SPSCFixedQueue" where
  "popFrontWithoutLocking q =
     (case queue q of
        [] \<Rightarrow> (Inl UndefinedBehaviour, q)
      | element # rest \<Rightarrow>
          (Inr element,
           q\<lparr>queue := rest,
             queue_space_available_condition := Suc (queue_space_available_condition q)\<rparr>))"

text \<open>
  The three overloads of \<^verbatim>\<open>popFront\<close>. The first takes a \<^verbatim>\<open>unique_lock\<close>, of which
  only \<^verbatim>\<open>operator bool\<close> is read: \<open>lock\<close> says whether it owns its mutex. A
  \<^verbatim>\<open>lock_guard\<close> has no such state, and the third overload locks by itself.
\<close>

definition popFront_unique_lock :: "bool \<Rightarrow> 'a SPSCFixedQueue \<Rightarrow> (error + 'a) \<times> 'a SPSCFixedQueue" where
  "popFront_unique_lock lock q =
     (if \<not> lock then (Inl RuntimeError, q) else popFrontWithoutLocking q)"

definition popFront_lock_guard :: "'a SPSCFixedQueue \<Rightarrow> (error + 'a) \<times> 'a SPSCFixedQueue" where
  "popFront_lock_guard q = popFrontWithoutLocking q"

definition popFront :: "'a SPSCFixedQueue \<Rightarrow> (error + 'a) \<times> 'a SPSCFixedQueue" where
  "popFront q = popFrontWithoutLocking q"

text \<open>
  What another thread may do to the queue while the producer sleeps in \<^verbatim>\<open>wait_for\<close>:
  the consumer pops, the owner sets the drain flag or clears the queue. A pop of an empty
  queue by the environment changes nothing here.
\<close>

datatype env_event = EnvPopFront | EnvSetDiscardEverything bool | EnvClear

fun env_step :: "env_event \<Rightarrow> 'a SPSCFixedQueue \<Rightarrow> 'a SPSCFixedQueue" where
  "env_step EnvPopFront q = snd (popFrontWithoutLocking q)"
| "env_step (EnvSetDiscardEverything b) q = setDiscardEverything b q"
| "env_step EnvClear q = clear q"

text \<open>
  The waiting loop of the blocking \<^verbatim>\<open>pushBack\<close>. Each element of the schedule is what
  happens during one \<^verbatim>\<open>wait_for\<close>; an empty element is a timeout with nothing changed.
  When the schedule has run out nothing ever happens again, so a producer that still
  finds the queue full and the drain flag off waits for ever: \<open>None\<close>.
\<close>

fun wait_for_space :: "'a SPSCFixedQueue \<Rightarrow> env_event list list \<Rightarrow> 'a SPSCFixedQueue option" where
  "wait_for_space q [] =
     (if length (queue q) \<ge> unat (max_queue_size q) \<and> \<not> discard_everything q then None
      else Some q)"
| "wait_for_space q (evs # env) =
     (if length (queue q) \<ge> unat (max_queue_size q) \<and> \<not> discard_everything q
      then wait_for_space (fold env_step evs q) env
      else Some q)"

definition pushBack ::
    "'a \<Rightarrow> bool \<Rightarrow> env_event list list \<Rightarrow> 'a SPSCFixedQueue \<Rightarrow> (bool \<times> 'a SPSCFixedQueue) option" where
  "pushBack element block env q =
     (if block then
        (case wait_for_space q env of
           None \<Rightarrow> None
         | Some q1 \<Rightarrow>
             if discard_everything q1 then Some (False, q1)
             else Some (True,
                    q1\<lparr>queue := queue q1 @ [element],
                       queue_filled_condition := Suc (queue_filled_condition q1)\<rparr>))
      else
        (if length (queue q) < unat (max_queue_size q) then
           Some (True,
             q\<lparr>queue := queue q @ [element],
               queue_filled_condition := Suc (queue_filled_condition q)\<rparr>)
         else Some (False, q)))"

section \<open>AppSrcSinkQueue\<close>

text \<open>
  Modelled from the spec: the struct \<^verbatim>\<open>GstreamerBufferInfo\<close> is declared in a header that
  is not among the sources. The spec's pending entry holds a 64-bit correspondence id and
  the timing fields, and the source copies the five \<^verbatim>\<open>guint64\<close> fields of a buffer into
  it and back, so its five members are \<^verbatim>\<open>guint64\<close>.
\<close>

record GstreamerBufferInfo =
  pts :: guint64
  dts :: guint64
  duration :: guint64
  offset :: guint64
  offset_end :: guint64

datatype DiscardMode = DISCARD_INPUT_FRAMES | DISCARD_OUTPUT_FRAMES

datatype GstFlowReturn = GST_FLOW_OK | GST_FLOW_FLUSHING | GST_FLOW_EOS | GST_FLOW_ERROR

text \<open>What the queue writes to \<^verbatim>\<open>std::cout\<close> and \<^verbatim>\<open>std::cerr\<close>, one constructor a line.\<close>

datatype console_line =
    WARNING_user_data_queue_full
  | Pushing_buffers_rate
  | Received_EOS
  | WARNING_no_correspondence
  | Outputting_buffers_rate
  | ERROR_user_data_queue_empty
  | WARNING_output_queue_full

text \<open>
  Modelled from the spec: \<^verbatim>\<open>ait::RateCounter\<close> is declared outside the sources. The spec
  calls it a rolling count over a reporting interval, for diagnostics only: here it is the
  number of \<^verbatim>\<open>count()\<close> calls since the last report, and whether \<^verbatim>\<open>reportRate\<close> finds the
  interval elapsed is decided by the clock, a parameter of each operation. The rate and
  the bandwidth are floating-point numbers that are only printed.
\<close>

type_synonym RateCounter = nat

record 'u AppSrcSinkQueue =
  base :: "(GstBufferWrapper \<times> 'u) SPSCFixedQueue"
  user_data_queue :: "(GstreamerBufferInfo \<times> 'u) list"
  output_frame_rate_counter :: RateCounter
  output_byte_counter :: guint64
  input_frame_rate_counter :: RateCounter
  input_byte_counter :: guint64
  src_overflow_counter :: guint
  sink_overflow_counter :: guint
  correspondence_fail_counter :: guint
  max_input_queue_size :: guint
  discard_mode :: DiscardMode
  console :: "console_line list"

definition FRAME_DROP_REPORT_RATE :: guint where
  "FRAME_DROP_REPORT_RATE = 10"

definition CORRESPONDENCE_FAIL_REPORT_RATE :: guint where
  "CORRESPONDENCE_FAIL_REPORT_RATE = 5"

definition MAX_USER_DATA_QUEUE_SIZE :: nat where
  "MAX_USER_DATA_QUEUE_SIZE = 100"

definition AppSrcSinkQueue_ctor :: "DiscardMode \<Rightarrow> guint \<Rightarrow> guint \<Rightarrow> 'u AppSrcSinkQueue" where
  "AppSrcSinkQueue_ctor mode max_output_queue_size max_input =
     \<lparr>base = SPSCFixedQueue_ctor max_output_queue_size,
      user_data_queue = [],
      output_frame_rate_counter = 0, output_byte_counter = 0,
      input_frame_rate_counter = 0, input_byte_counter = 0,
      src_overflow_counter = 0, sink_overflow_counter = 0, correspondence_fail_counter = 0,
      max_input_queue_size = max_input, discard_mode = mode, console = []\<rparr>"

text \<open>
  What the outside decides during one \<^verbatim>\<open>pushData\<close>: the status the ingest port returns,
  whether the buffer can be mapped for \<^verbatim>\<open>getSize\<close>, and whether the rate counter reports.
\<close>

record pushData_env =
  push_buffer_ret :: GstFlowReturn
  input_map_ok :: bool
  input_report :: bool

text \<open>Lines 416 to 424: the safety bound of the pending queue.\<close>

definition evict_oldest :: "'u AppSrcSinkQueue \<Rightarrow> 'u AppSrcSinkQueue" where
  "evict_oldest q =
     (if length (user_data_queue q) \<ge> MAX_USER_DATA_QUEUE_SIZE then
        (let q1 = q\<lparr>user_data_queue := tl (user_data_queue q),
                     src_overflow_counter := src_overflow_counter q + 1\<rparr>
         in if src_overflow_counter q1 \<ge> FRAME_DROP_REPORT_RATE then
              q1\<lparr>console := console q1 @ [WARNING_user_data_queue_full],
                 src_overflow_counter := 0\<rparr>
            else q1)
      else q)"

definition buffer_info_of :: "GstBuffer \<Rightarrow> GstreamerBufferInfo" where
  "buffer_info_of b =
     \<lparr>pts = GST_BUFFER_PTS b, dts = GST_BUFFER_DTS b, duration = GST_BUFFER_DURATION b,
      offset = GST_BUFFER_OFFSET b, offset_end = GST_BUFFER_OFFSET_END b\<rparr>"

text \<open>Lines 439 to 444: the byte total, and the report when the interval has elapsed.\<close>

definition report_input :: "bool \<Rightarrow> guint64 \<Rightarrow> 'u AppSrcSinkQueue \<Rightarrow> 'u AppSrcSinkQueue" where
  "report_input report sz q =
     (let q1 = q\<lparr>input_byte_counter := input_byte_counter q + sz\<rparr>
      in if report then
           q1\<lparr>input_frame_rate_counter := 0, input_byte_counter := 0,
              console := console q1 @ [Pushing_buffers_rate]\<rparr>
         else q1)"

text \<open>
  \<^verbatim>\<open>pushData\<close>. The ingest port is the list of buffers handed to
  \<^verbatim>\<open>gst_app_src_push_buffer\<close> so far. The result is the outcome, the queue and the port.
\<close>

definition pushData ::
    "pushData_env \<Rightarrow> GstBuffer list \<Rightarrow> GstBufferWrapper \<Rightarrow> 'u \<Rightarrow> 'u AppSrcSinkQueue \<Rightarrow>
     (error + bool) \<times> 'u AppSrcSinkQueue \<times> GstBuffer list" where
  "pushData env port buffer user_data q =
     (case ptr buffer of
        None \<Rightarrow> (Inl AssertionFailure, q, port)
      | Some b \<Rightarrow>
          if discard_mode q = DISCARD_INPUT_FRAMES
             \<and> length (user_data_queue q) \<ge> unat (max_input_queue_size q)
          then (Inr False, q, port)
          else
            (let port1 = port @ [b] in
             if push_buffer_ret env = GST_FLOW_OK then
               (let q1 = evict_oldest q;
                    q2 = q1\<lparr>user_data_queue := user_data_queue q1 @ [(buffer_info_of b, user_data)]\<rparr>;
                    q3 = q2\<lparr>input_frame_rate_counter := Suc (input_frame_rate_counter q2)\<rparr>
                in case getSize (input_map_ok env) buffer of
                     Inl e \<Rightarrow> (Inl e, q3, port1)
                   | Inr (sz, buffer1) \<Rightarrow> (Inr True, report_input (input_report env) sz q3, port1))
             else (Inr False, q, port1)))"

text \<open>
  The \<^verbatim>\<open>do ... while\<close> of lines 521 to 527 on the pending queue. The comparison is the
  source's: the \<^verbatim>\<open>int\<close> id is converted to the unsigned 64-bit type of \<^verbatim>\<open>offset\<close>
  (sign extension, \<open>scast\<close>) and the two are compared unsigned. The result is the outcome
  and what is left of the queue; running off the end of the queue is outside the contract
  of \<^verbatim>\<open>front()\<close>.
\<close>

fun match_user_data ::
    "gint \<Rightarrow> (GstreamerBufferInfo \<times> 'u) list \<Rightarrow>
     (error + GstreamerBufferInfo \<times> 'u) \<times> (GstreamerBufferInfo \<times> 'u) list" where
  "match_user_data correspondence_id [] = (Inl UndefinedBehaviour, [])"
| "match_user_data correspondence_id (tuple # rest) =
     (if (scast correspondence_id :: guint64) < offset (fst tuple) then (Inl QueueError, rest)
      else if (scast correspondence_id :: guint64) > offset (fst tuple)
           then match_user_data correspondence_id rest
      else (Inr tuple, rest))"

text \<open>Lines 532 to 536: the timing fields of the pending entry go onto the buffer.\<close>

definition stamp_buffer :: "GstreamerBufferInfo \<Rightarrow> GstBufferWrapper \<Rightarrow> GstBufferWrapper" where
  "stamp_buffer buffer_info w =
     w\<lparr>ptr := map_option
         (\<lambda>b. b\<lparr>GST_BUFFER_PTS := pts buffer_info, GST_BUFFER_DTS := dts buffer_info,
                GST_BUFFER_DURATION := duration buffer_info,
                GST_BUFFER_OFFSET := offset buffer_info,
                GST_BUFFER_OFFSET_END := offset_end buffer_info\<rparr>) (ptr w)\<rparr>"

text \<open>Lines 541 to 545: a pair the output queue did not take.\<close>

definition count_sink_overflow :: "'u AppSrcSinkQueue \<Rightarrow> 'u AppSrcSinkQueue" where
  "count_sink_overflow q =
     (let q1 = q\<lparr>sink_overflow_counter := sink_overflow_counter q + 1\<rparr>
      in if sink_overflow_counter q1 \<ge> FRAME_DROP_REPORT_RATE then
           q1\<lparr>console := console q1 @ [WARNING_output_queue_full], sink_overflow_counter := 0\<rparr>
         else q1)"

text \<open>Lines 481 to 486: a result without a correspondence id.\<close>

definition count_correspondence_fail :: "'u AppSrcSinkQueue \<Rightarrow> 'u AppSrcSinkQueue" where
  "count_correspondence_fail q =
     (let q1 = q\<lparr>correspondence_fail_counter := correspondence_fail_counter q + 1\<rparr>
      in if correspondence_fail_counter q1 \<ge> CORRESPONDENCE_FAIL_REPORT_RATE then
           q1\<lparr>console := console q1 @ [WARNING_no_correspondence],
              correspondence_fail_counter := 0\<rparr>
         else q1)"

text \<open>
  Lines 538 to 546: the pair is offered to the output queue, blocking unless the mode is
  \<^verbatim>\<open>DISCARD_OUTPUT_FRAMES\<close>. \<open>None\<close> when the blocking push never returns. The wrapper
  is moved into the tuple and the tuple into the deque by the move constructor, which hands
  over every member, so the wrapper is passed on as a value.
\<close>

definition publish ::
    "env_event list list \<Rightarrow> GstBufferWrapper \<times> 'u \<Rightarrow> 'u AppSrcSinkQueue \<Rightarrow>
     'u AppSrcSinkQueue option" where
  "publish env output_tuple q =
     (let block = (discard_mode q \<noteq> DISCARD_OUTPUT_FRAMES)
      in case pushBack output_tuple block env (base q) of
           None \<Rightarrow> None
         | Some (pushed, base1) \<Rightarrow>
             if \<not> pushed then Some (count_sink_overflow (q\<lparr>base := base1\<rparr>))
             else Some (q\<lparr>base := base1\<rparr>))"

text \<open>
  What the outside decides during one \<^verbatim>\<open>newSampleCallback\<close>: the sample pulled from the
  egress port (\<open>None\<close> is \<^verbatim>\<open>nullptr\<close>; a sample is its buffer), whether the port is at end
  of stream, whether the deep copy and the mapping succeed, whether the rate counter
  reports, and what other threads do to the output queue while a blocking push waits.
\<close>

record newSample_env =
  pulled_sample :: "GstBuffer option"
  is_eos :: bool
  copy_ok :: bool
  output_map_ok :: bool
  output_report :: bool
  schedule :: "env_event list list"

text \<open>Lines 513 to 549, from the locked lookup to the return.\<close>

definition match_and_publish ::
    "newSample_env \<Rightarrow> gint \<Rightarrow> GstBufferWrapper \<Rightarrow> 'u AppSrcSinkQueue \<Rightarrow>
     ((error + GstFlowReturn) \<times> 'u AppSrcSinkQueue) option" where
  "match_and_publish env correspondence_id buffer q =
     (if user_data_queue q = [] then
        Some (Inr GST_FLOW_OK, q\<lparr>console := console q @ [ERROR_user_data_queue_empty]\<rparr>)
      else
        (case match_user_data correspondence_id (user_data_queue q) of
           (Inl e, rest) \<Rightarrow> Some (Inl e, q\<lparr>user_data_queue := rest\<rparr>)
         | (Inr tuple, rest) \<Rightarrow>
             (case publish (schedule env) (stamp_buffer (fst tuple) buffer, snd tuple)
                     (q\<lparr>user_data_queue := rest\<rparr>) of
                None \<Rightarrow> None
              | Some q1 \<Rightarrow> Some (Inr GST_FLOW_OK, q1))))"

text \<open>Lines 506 to 511: the byte total, and the report when the interval has elapsed.\<close>

definition report_output :: "bool \<Rightarrow> guint64 \<Rightarrow> 'u AppSrcSinkQueue \<Rightarrow> 'u AppSrcSinkQueue" where
  "report_output report sz q =
     (let q1 = q\<lparr>output_byte_counter := output_byte_counter q + sz\<rparr>
      in if report then
           q1\<lparr>output_frame_rate_counter := 0, output_byte_counter := 0,
              console := console q1 @ [Outputting_buffers_rate]\<rparr>
         else q1)"

text \<open>
  \<^verbatim>\<open>newSampleCallback\<close>, built with \<^verbatim>\<open>SIMULATE_ZED\<close> unset. The wrapper of the sample's
  buffer does not own it; the wrapper of the deep copy does, and the swap leaves the copy in
  \<^verbatim>\<open>buffer\<close>.
\<close>

definition newSampleCallback ::
    "newSample_env \<Rightarrow> 'u AppSrcSinkQueue \<Rightarrow>
     ((error + GstFlowReturn) \<times> 'u AppSrcSinkQueue) option" where
  "newSampleCallback env q =
     (case pulled_sample env of
        None \<Rightarrow>
          if is_eos env then Some (Inr GST_FLOW_OK, q\<lparr>console := console q @ [Received_EOS]\<rparr>)
          else Some (Inl RuntimeError, q)
      | Some gst_buffer \<Rightarrow>
          (let buffer = GstBufferWrapper_ctor2 (Some gst_buffer) False;
               correspondence_id =
                 (case correspondence_meta gst_buffer of None \<Rightarrow> - 1 | Some i \<Rightarrow> i)
           in if correspondence_id = - 1 then
                Some (Inr GST_FLOW_OK, count_correspondence_fail q)
              else if \<not> copy_ok env then Some (Inl QueueError, q)
              else
                (let buffer_copy = GstBufferWrapper_ctor (Some gst_buffer);
                     buffer1 = fst (swap_wrappers buffer buffer_copy);
                     q1 = q\<lparr>output_frame_rate_counter := Suc (output_frame_rate_counter q)\<rparr>
                 in case getSize (output_map_ok env) buffer1 of
                      Inl e \<Rightarrow> Some (Inl e, q1)
                    | Inr (sz, buffer2) \<Rightarrow>
                        match_and_publish env correspondence_id buffer2
                          (report_output (output_report env) sz q1))))"

section \<open>GstreamerPipeline\<close>

text \<open>
  The supervisor. \<^verbatim>\<open>pipeline_\<close> is read only as null or not, so it is a flag;
  \<^verbatim>\<open>appsrc_\<close> is the ingest port, the buffers handed to it so far; \<^verbatim>\<open>message_thread_\<close>
  is whether the thread is joinable. A \<^verbatim>\<open>clock::time_point\<close> is an integer number of
  nanoseconds. \<^verbatim>\<open>time_previous\<close> is the function-local static of \<^verbatim>\<open>pushInput\<close>, \<open>None\<close>
  until its initialiser has run (see the constructor). \<open>calls\<close> records each entry into \<^verbatim>\<open>stop()\<close> and
  \<^verbatim>\<open>start()\<close>, and the watchdog's warning, in order.
\<close>

datatype lifecycle_call = watchdog_activated | stop_called | start_called

record 'u GstreamerPipeline =
  pipeline :: bool
  appsrc :: "GstBuffer list"
  appsrcsink_queue :: "'u AppSrcSinkQueue"
  frame_counter :: guint64
  watchdog_counter :: guint
  last_appsink_sample_time :: int
  delivering_appsink_sample :: bool
  terminate :: bool
  message_thread :: bool
  time_previous :: "guint64 option"
  calls :: "lifecycle_call list"

definition WATCHDOG_RESET_COUNT :: guint where
  "WATCHDOG_RESET_COUNT = 10"

definition WATCHDOG_TIMEOUT :: int where
  "WATCHDOG_TIMEOUT = 2 * 1000000000"

text \<open>
  \<^verbatim>\<open>GST_SECOND\<close> is 1000000000 nanoseconds and the frame period a tenth of a second, so
  \<^verbatim>\<open>static_cast<guint64>(GST_SECOND * frame_period)\<close> is 100000000.
  \<^verbatim>\<open>GST_CLOCK_TIME_NONE\<close> and \<^verbatim>\<open>GST_BUFFER_OFFSET_NONE\<close> are the all-ones word.
\<close>

definition gst_frame_period :: guint64 where
  "gst_frame_period = 100000000"

definition GST_CLOCK_TIME_NONE :: guint64 where
  "GST_CLOCK_TIME_NONE = - 1"

definition GST_BUFFER_OFFSET_NONE :: guint64 where
  "GST_BUFFER_OFFSET_NONE = - 1"

text \<open>
  The constructor. \<^verbatim>\<open>time_previous\<close> is not a member: it is a static of \<^verbatim>\<open>pushInput\<close>, one
  variable for every pipeline of the process, and the constructor does not touch it. The
  model follows one pipeline, so the field starts with the value the static holds when the
  pipeline is made, the last argument: \<open>None\<close> as long as no \<^verbatim>\<open>pushInput\<close> has run in the
  process. What another pipeline of the same process writes to it in between is not
  modelled; it would change \<^verbatim>\<open>GST_BUFFER_PTS\<close> of the submitted buffers and nothing else.
\<close>

definition GstreamerPipeline_ctor ::
    "DiscardMode \<Rightarrow> guint \<Rightarrow> guint \<Rightarrow> guint64 option \<Rightarrow> 'u GstreamerPipeline" where
  "GstreamerPipeline_ctor mode max_output_queue_size max_input static_time_previous =
     \<lparr>pipeline = False, appsrc = [],
      appsrcsink_queue = AppSrcSinkQueue_ctor mode max_output_queue_size max_input,
      frame_counter = 0, watchdog_counter = 0, last_appsink_sample_time = 0,
      delivering_appsink_sample = False, terminate = False, message_thread = False,
      time_previous = static_time_previous, calls = []\<rparr>"

text \<open>\<^verbatim>\<open>initialize\<close>: \<open>created\<close> says whether the two elements could be made.\<close>

definition initialize :: "bool \<Rightarrow> 'u GstreamerPipeline \<Rightarrow> (error + unit) \<times> 'u GstreamerPipeline" where
  "initialize created p =
     (if pipeline p then (Inl RuntimeError, p)
      else if \<not> created then (Inl RuntimeError, p)
      else (Inr (), p\<lparr>pipeline := True, appsrc := []\<rparr>))"

definition stop :: "'u GstreamerPipeline \<Rightarrow> (error + unit) \<times> 'u GstreamerPipeline" where
  "stop p =
     (let p0 = p\<lparr>calls := calls p @ [stop_called]\<rparr>
      in if \<not> pipeline p0 then (Inl RuntimeError, p0)
         else
           (Inr (),
            p0\<lparr>appsrcsink_queue :=
                 (appsrcsink_queue p0)\<lparr>base := setDiscardEverything True (base (appsrcsink_queue p0))\<rparr>,
               terminate := True,
               message_thread := False\<rparr>))"

text \<open>
  What the outside decides during one \<^verbatim>\<open>start()\<close>: whether the pipeline accepts the
  state change, and the time \<^verbatim>\<open>clock::now()\<close> reads.
\<close>

record start_env =
  set_state_ok :: bool
  start_now :: int

definition start :: "start_env \<Rightarrow> 'u GstreamerPipeline \<Rightarrow> (error + unit) \<times> 'u GstreamerPipeline" where
  "start env p =
     (let p0 = p\<lparr>calls := calls p @ [start_called]\<rparr>
      in if \<not> pipeline p0 then (Inl RuntimeError, p0)
         else
           (let p1 = p0\<lparr>appsrcsink_queue :=
                        (appsrcsink_queue p0)\<lparr>base := clear (base (appsrcsink_queue p0))\<rparr>\<rparr>;
                p2 = (if message_thread p1 then snd (stop p1) else p1);
                p3 = p2\<lparr>appsrcsink_queue :=
                        (appsrcsink_queue p2)\<lparr>base := setDiscardEverything False (base (appsrcsink_queue p2))\<rparr>,
                        terminate := False\<rparr>
            in if \<not> set_state_ok env then (Inl RuntimeError, p3)
               else (Inr (),
                     p3\<lparr>watchdog_counter := 0,
                        last_appsink_sample_time := start_now env,
                        message_thread := True\<rparr>)))"

text \<open>
  What the outside decides during one \<^verbatim>\<open>pushInput\<close>: the system clock and the pipeline
  clock at entry, what a restart by the watchdog meets, and what \<^verbatim>\<open>pushData\<close> meets.
\<close>

record pushInput_env =
  clock_now :: int
  gst_clock_time :: guint64
  restart :: start_env
  push :: pushData_env

text \<open>
  Lines 722 to 758 of \<^verbatim>\<open>pushInput\<close>: the buffer is stamped, the low 32 bits of its offset
  become its correspondence id (\<^verbatim>\<open>static_cast<int>\<close>), and it is moved into
  \<^verbatim>\<open>pushData\<close>. Only a push that returns true advances \<^verbatim>\<open>frame_counter_\<close>.
\<close>

definition stamp_input :: "guint64 \<Rightarrow> guint64 \<Rightarrow> guint64 \<Rightarrow> GstBuffer \<Rightarrow> GstBuffer" where
  "stamp_input time_now previous counter b =
     (let b1 = b\<lparr>GST_BUFFER_PTS :=
                  (if time_now - previous \<le> gst_frame_period then previous + gst_frame_period
                   else time_now),
                GST_BUFFER_DTS := GST_CLOCK_TIME_NONE,
                GST_BUFFER_DURATION := gst_frame_period,
                GST_BUFFER_OFFSET := counter,
                GST_BUFFER_OFFSET_END := GST_BUFFER_OFFSET_NONE\<rparr>
      in b1\<lparr>correspondence_meta := Some (ucast (GST_BUFFER_OFFSET b1))\<rparr>)"

definition forward_input ::
    "pushInput_env \<Rightarrow> GstBufferWrapper \<Rightarrow> GstBuffer \<Rightarrow> 'u \<Rightarrow> 'u GstreamerPipeline \<Rightarrow>
     (error + bool) \<times> 'u GstreamerPipeline" where
  "forward_input env buffer b user_data p =
     (let time_now = gst_clock_time env;
          previous = (case time_previous p of None \<Rightarrow> time_now - gst_frame_period | Some t \<Rightarrow> t);
          p1 = p\<lparr>time_previous := Some previous\<rparr>;
          buffer1 = buffer\<lparr>ptr := Some (stamp_input time_now previous (frame_counter p1) b)\<rparr>
      in case pushData (push env) (appsrc p1) buffer1 user_data (appsrcsink_queue p1) of
           (r, q1, port1) \<Rightarrow>
             (let p2 = p1\<lparr>appsrcsink_queue := q1, appsrc := port1\<rparr>
              in case r of
                   Inl e \<Rightarrow> (Inl e, p2)
                 | Inr result \<Rightarrow>
                     (Inr result,
                      if result then p2\<lparr>frame_counter := frame_counter p2 + 1,
                                        time_previous := Some time_now\<rparr>
                      else p2)))"

definition pushInput ::
    "pushInput_env \<Rightarrow> GstBufferWrapper \<Rightarrow> 'u \<Rightarrow> 'u GstreamerPipeline \<Rightarrow>
     (error + bool) \<times> 'u GstreamerPipeline" where
  "pushInput env buffer user_data p =
     (if \<not> pipeline p then (Inl RuntimeError, p)
      else
        (case ptr buffer of
           None \<Rightarrow> (Inl AssertionFailure, p)
         | Some b \<Rightarrow>
             if \<not> delivering_appsink_sample p
                \<and> clock_now env - last_appsink_sample_time p \<ge> WATCHDOG_TIMEOUT
             then
               (let p1 = p\<lparr>watchdog_counter := watchdog_counter p + 1\<rparr>
                in if watchdog_counter p1 \<ge> WATCHDOG_RESET_COUNT then
                     (case stop (p1\<lparr>calls := calls p1 @ [watchdog_activated]\<rparr>) of
                        (Inl e, p2) \<Rightarrow> (Inl e, p2)
                      | (Inr _, p2) \<Rightarrow>
                          (case start (restart env) p2 of
                             (Inl e, p3) \<Rightarrow> (Inl e, p3)
                           | (Inr _, p3) \<Rightarrow> (Inr False, p3)))
                   else forward_input env buffer b user_data p1)
             else if watchdog_counter p > 0 then
               forward_input env buffer b user_data (p\<lparr>watchdog_counter := 0\<rparr>)
             else forward_input env buffer b user_data p))"

text \<open>
  \<^verbatim>\<open>newAppsinkSampleCallback\<close>: the flag is set and the result of the queue's callback is
  returned. The two statements after the \<^verbatim>\<open>return\<close> are never run, so they are not here.
\<close>

definition newAppsinkSampleCallback ::
    "newSample_env \<Rightarrow> 'u GstreamerPipeline \<Rightarrow>
     ((error + GstFlowReturn) \<times> 'u GstreamerPipeline) option" where
  "newAppsinkSampleCallback env p =
     (let p1 = p\<lparr>delivering_appsink_sample := True\<rparr>
      in case newSampleCallback env (appsrcsink_queue p1) of
           None \<Rightarrow> None
         | Some (r, q1) \<Rightarrow> Some (r, p1\<lparr>appsrcsink_queue := q1\<rparr>))"

text \<open>The three overloads of \<^verbatim>\<open>popOutput\<close>, which pass on to the queue's \<^verbatim>\<open>popFront\<close>.\<close>

definition popOutput_unique_lock ::
    "bool \<Rightarrow> 'u GstreamerPipeline \<Rightarrow> (error + GstBufferWrapper \<times> 'u) \<times> 'u GstreamerPipeline" where
  "popOutput_unique_lock lock p =
     (case popFront_unique_lock lock (base (appsrcsink_queue p)) of
        (r, base1) \<Rightarrow> (r, p\<lparr>appsrcsink_queue := (appsrcsink_queue p)\<lparr>base := base1\<rparr>\<rparr>))"

definition popOutput_lock_guard ::
    "'u GstreamerPipeline \<Rightarrow> (error + GstBufferWrapper \<times> 'u) \<times> 'u GstreamerPipeline" where
  "popOutput_lock_guard p =
     (case popFront_lock_guard (base (appsrcsink_queue p)) of
        (r, base1) \<Rightarrow> (r, p\<lparr>appsrcsink_queue := (appsrcsink_queue p)\<lparr>base := base1\<rparr>\<rparr>))"

definition popOutput ::
    "'u GstreamerPipeline \<Rightarrow> (error + GstBufferWrapper \<times> 'u) \<times> 'u GstreamerPipeline" where
  "popOutput p =
     (case popFront (base (appsrcsink_queue p)) of
        (r, base1) \<Rightarrow> (r, p\<lparr>appsrcsink_queue := (appsrcsink_queue p)\<lparr>base := base1\<rparr>\<rparr>))"

section \<open>Runs\<close>

text \<open>
  The states an \<^verbatim>\<open>AppSrcSinkQueue\<close> can be in: the constructor makes one, and
  \<^verbatim>\<open>pushData\<close>, \<^verbatim>\<open>newSampleCallback\<close> and whatever is done to the output queue it inherits
  (a pop, \<^verbatim>\<open>clear\<close>, \<^verbatim>\<open>setDiscardEverything\<close>) lead from one to the next. The pending
  queue is private and no other member writes it.
\<close>

inductive reachable :: "'u AppSrcSinkQueue \<Rightarrow> bool" where
  reachable_ctor: "reachable (AppSrcSinkQueue_ctor mode max_output_queue_size max_input)"
| reachable_pushData:
    "reachable q \<Longrightarrow> pushData env port buffer user_data q = (r, q1, port1) \<Longrightarrow> reachable q1"
| reachable_newSample:
    "reachable q \<Longrightarrow> newSampleCallback senv q = Some (r, q1) \<Longrightarrow> reachable q1"
| reachable_base: "reachable q \<Longrightarrow> reachable (q\<lparr>base := b\<rparr>)"

text \<open>
  A caller that submits one frame after the other, and a pipeline that delivers one result
  after the other. Each records what every call returned or threw.
\<close>

fun pushInputs ::
    "(pushInput_env \<times> GstBufferWrapper \<times> 'u) list \<Rightarrow> 'u GstreamerPipeline \<Rightarrow>
     (error + bool) list \<times> 'u GstreamerPipeline" where
  "pushInputs [] p = ([], p)"
| "pushInputs ((env, buffer, user_data) # ins) p =
     (case pushInput env buffer user_data p of
        (r, p1) \<Rightarrow> (case pushInputs ins p1 of (rs, p2) \<Rightarrow> (r # rs, p2)))"

fun deliveries ::
    "newSample_env list \<Rightarrow> 'u GstreamerPipeline \<Rightarrow>
     ((error + GstFlowReturn) list \<times> 'u GstreamerPipeline) option" where
  "deliveries [] p = Some ([], p)"
| "deliveries (senv # senvs) p =
     (case newAppsinkSampleCallback senv p of
        None \<Rightarrow> None
      | Some (r, p1) \<Rightarrow>
          (case deliveries senvs p1 of
             None \<Rightarrow> None
           | Some (rs, p2) \<Rightarrow> Some (r # rs, p2)))"

text \<open>
  The three kinds of call in one run, in any order: the caller submits, the pipeline
  delivers, the consumer pops. Each call is one step, and the list is the order in which
  the calls take effect: a delivery that waits for a slot of the output queue takes effect
  when it gets the slot, after the pop that frees it. A callback that never returns ends
  the run, which records \<open>Blocked\<close> and keeps the state the callback found.
\<close>

datatype 'u action =
    Push pushInput_env GstBufferWrapper 'u
  | Deliver newSample_env
  | Pop

datatype 'u outcome =
    Pushed "error + bool"
  | Delivered "error + GstFlowReturn"
  | Popped "error + GstBufferWrapper \<times> 'u"
  | Blocked

fun run :: "'u action list \<Rightarrow> 'u GstreamerPipeline \<Rightarrow> 'u outcome list \<times> 'u GstreamerPipeline" where
  "run [] p = ([], p)"
| "run (Push env buffer user_data # acts) p =
     (case pushInput env buffer user_data p of
        (r, p1) \<Rightarrow> (case run acts p1 of (rs, p2) \<Rightarrow> (Pushed r # rs, p2)))"
| "run (Deliver senv # acts) p =
     (case newAppsinkSampleCallback senv p of
        None \<Rightarrow> ([Blocked], p)
      | Some (r, p1) \<Rightarrow> (case run acts p1 of (rs, p2) \<Rightarrow> (Delivered r # rs, p2)))"
| "run (Pop # acts) p =
     (case popOutput p of
        (r, p1) \<Rightarrow> (case run acts p1 of (rs, p2) \<Rightarrow> (Popped r # rs, p2)))"

text \<open>What the calls of each kind returned, in order.\<close>

fun pushed_of :: "'u outcome list \<Rightarrow> (error + bool) list" where
  "pushed_of [] = []"
| "pushed_of (Pushed r # rs) = r # pushed_of rs"
| "pushed_of (other # rs) = pushed_of rs"

fun delivered_of :: "'u outcome list \<Rightarrow> (error + GstFlowReturn) list" where
  "delivered_of [] = []"
| "delivered_of (Delivered r # rs) = r # delivered_of rs"
| "delivered_of (other # rs) = delivered_of rs"

fun popped_of :: "'u outcome list \<Rightarrow> (error + GstBufferWrapper \<times> 'u) list" where
  "popped_of [] = []"
| "popped_of (Popped r # rs) = r # popped_of rs"
| "popped_of (other # rs) = popped_of rs"

text \<open>
  What a run is given: the buffers and the user data submitted, the result buffers
  delivered, and the number of pops.
\<close>

fun frames_of :: "'u action list \<Rightarrow> GstBuffer list" where
  "frames_of [] = []"
| "frames_of (Push env buffer user_data # acts) =
     (case ptr buffer of None \<Rightarrow> frames_of acts | Some b \<Rightarrow> b # frames_of acts)"
| "frames_of (other # acts) = frames_of acts"

fun users_of :: "'u action list \<Rightarrow> 'u list" where
  "users_of [] = []"
| "users_of (Push env buffer user_data # acts) = user_data # users_of acts"
| "users_of (other # acts) = users_of acts"

fun results_of :: "'u action list \<Rightarrow> GstBuffer list" where
  "results_of [] = []"
| "results_of (Deliver senv # acts) =
     (case pulled_sample senv of None \<Rightarrow> results_of acts | Some b \<Rightarrow> b # results_of acts)"
| "results_of (other # acts) = results_of acts"

fun pops_of :: "'u action list \<Rightarrow> nat" where
  "pops_of [] = 0"
| "pops_of (Pop # acts) = Suc (pops_of acts)"
| "pops_of (other # acts) = pops_of acts"

text \<open>
  Conditions on the order of the calls, counted and not read from the pipeline. With
  \<open>pending\<close> frames submitted and not yet answered and \<open>out\<close> pairs delivered and not yet
  popped: a frame is submitted while fewer than \<^verbatim>\<open>MAX_USER_DATA_QUEUE_SIZE\<close> are pending; a
  result arrives for a pending frame while the output queue, of capacity \<open>cap\<close>, has a
  free slot; the consumer pops when there is a pair to pop.
\<close>

fun admissible :: "nat \<Rightarrow> nat \<Rightarrow> nat \<Rightarrow> 'u action list \<Rightarrow> bool" where
  "admissible cap pending out [] = True"
| "admissible cap pending out (Push env buffer user_data # acts) =
     (pending < MAX_USER_DATA_QUEUE_SIZE \<and> admissible cap (Suc pending) out acts)"
| "admissible cap pending out (Deliver senv # acts) =
     (0 < pending \<and> out < cap \<and> admissible cap (pending - 1) (Suc out) acts)"
| "admissible cap pending out (Pop # acts) =
     (0 < out \<and> admissible cap pending (out - 1) acts)"

text \<open>
  The results arrive in the order of submission, and each can be copied and mapped: the
  next result carries the id \<^verbatim>\<open>pushInput\<close> gave to the frame whose offset is \<open>d\<close>, which is
  \<^verbatim>\<open>static_cast<int>\<close> of \<open>d\<close>, and the one after it that of \<open>d + 1\<close>.
\<close>

fun results_in_order :: "guint64 \<Rightarrow> 'u action list \<Rightarrow> bool" where
  "results_in_order d [] = True"
| "results_in_order d (Deliver senv # acts) =
     ((case pulled_sample senv of
         None \<Rightarrow> False
       | Some b \<Rightarrow> correspondence_meta b = Some (ucast d))
      \<and> copy_ok senv \<and> output_map_ok senv \<and> results_in_order (d + 1) acts)"
| "results_in_order d (other # acts) = results_in_order d acts"

text \<open>
  The order of the ids in the two queues: the offsets of the buffers in the output queue,
  oldest first (a wrapper without a buffer has none), and those of the pending entries,
  oldest first. \<open>ordered\<close> says that through the output queue, then the pending queue, and
  up to \<^verbatim>\<open>frame_counter_\<close>, no id is larger than a later one.
\<close>

definition output_ids :: "'u GstreamerPipeline \<Rightarrow> guint64 list" where
  "output_ids p =
     List.map_filter (\<lambda>x. map_option GST_BUFFER_OFFSET (ptr (fst x)))
       (queue (base (appsrcsink_queue p)))"

definition pending_ids :: "'u GstreamerPipeline \<Rightarrow> guint64 list" where
  "pending_ids p = map (\<lambda>e. offset (fst e)) (user_data_queue (appsrcsink_queue p))"

definition ordered :: "'u GstreamerPipeline \<Rightarrow> bool" where
  "ordered p = sorted (output_ids p @ pending_ids p @ [frame_counter p])"



text \<open>
  For the statements below: the wrapper \<^verbatim>\<open>newSampleCallback\<close> holds of a result buffer
  \<open>b\<close> after the deep copy, the swap and \<^verbatim>\<open>getSize\<close> (it owns the copy, which is mapped
  for reading), and the pair the callback offers to the output queue when \<open>b\<close> is matched
  with a pending entry (lemmas \<open>copy_wrapper_made\<close> and \<open>matched_pair_fields\<close>).
\<close>

definition copy_wrapper :: "GstBuffer \<Rightarrow> GstBufferWrapper" where
  "copy_wrapper b =
     \<lparr>ptr = Some b,
      info = Some \<lparr>map_flags = GST_MAP_READ, map_data = memory b,
                   map_size = of_nat (length (memory b))\<rparr>,
      mapped = True, mapped_writable = False, owns_buffer = True\<rparr>"

definition matched_pair :: "GstBuffer \<Rightarrow> GstreamerBufferInfo \<times> 'u \<Rightarrow> GstBufferWrapper \<times> 'u" where
  "matched_pair b entry = (stamp_buffer (fst entry) (copy_wrapper b), snd entry)"

section \<open>Concrete inputs\<close>

text \<open>
  Values the concrete runs below are made of: a three-byte buffer without correspondence
  meta and a fresh owning wrapper of it; an outside where the ingest port accepts, mapping
  succeeds and no rate is reported; a \<^verbatim>\<open>pushInput\<close> at system time \<open>t\<close> (nanoseconds); an
  egress result carrying the id \<open>i\<close>; and a pipeline, the first of its process, that
  has been constructed, initialised and started at time 0.
\<close>

definition buffer0 :: GstBuffer where
  "buffer0 = \<lparr>GST_BUFFER_PTS = 0, GST_BUFFER_DTS = 0, GST_BUFFER_DURATION = 0,
              GST_BUFFER_OFFSET = 0, GST_BUFFER_OFFSET_END = 0,
              correspondence_meta = None, memory = [1, 2, 3]\<rparr>"

definition frame0 :: GstBufferWrapper where
  "frame0 = GstBufferWrapper_ctor (Some buffer0)"

definition accepting :: pushData_env where
  "accepting = \<lparr>push_buffer_ret = GST_FLOW_OK, input_map_ok = True, input_report = False\<rparr>"

definition submit_at :: "int \<Rightarrow> pushInput_env" where
  "submit_at t =
     \<lparr>clock_now = t, gst_clock_time = word_of_int t,
      restart = \<lparr>set_state_ok = True, start_now = t\<rparr>, push = accepting\<rparr>"

definition result_with_id :: "gint \<Rightarrow> newSample_env" where
  "result_with_id i =
     \<lparr>pulled_sample = Some (buffer0\<lparr>correspondence_meta := Some i\<rparr>), is_eos = False,
      copy_ok = True, output_map_ok = True, output_report = False, schedule = []\<rparr>"

definition started :: "DiscardMode \<Rightarrow> guint \<Rightarrow> guint \<Rightarrow> nat GstreamerPipeline" where
  "started mode max_output_queue_size max_input =
     snd (start \<lparr>set_state_ok = True, start_now = 0\<rparr>
            (snd (initialize True
                    (GstreamerPipeline_ctor mode max_output_queue_size max_input None))))"

text \<open>The frames \<open>0, ..., n - 1\<close> as user data, each submitted at time 0.\<close>

definition submissions :: "nat \<Rightarrow> (pushInput_env \<times> GstBufferWrapper \<times> nat) list" where
  "submissions n = map (\<lambda>i. (submit_at 0, frame0, i)) [0..<n]"

text \<open>
  Three frames submitted and the result of the second delivered first, which leaves the
  third pending; and two frames submitted to a pipeline whose output queue has one slot,
  with the result of the first delivered, which fills the slot.
\<close>

definition three_submitted :: "nat GstreamerPipeline" where
  "three_submitted = snd (pushInputs (submissions 3) (started DISCARD_OUTPUT_FRAMES 5 3))"


definition one_slot_full :: "nat GstreamerPipeline" where
  "one_slot_full =
     (case deliveries [result_with_id 0]
             (snd (pushInputs (submissions 2) (started DISCARD_OUTPUT_FRAMES 1 3))) of
        None \<Rightarrow> started DISCARD_OUTPUT_FRAMES 1 3
      | Some (rs, p) \<Rightarrow> p)"

text \<open>
  One frame submitted and its result delivered; and ten submissions three seconds apart,
  the first three seconds after the start.
\<close>

definition one_delivered :: "nat GstreamerPipeline" where
  "one_delivered =
     (case deliveries [result_with_id 0]
             (snd (pushInputs (submissions 1) (started DISCARD_OUTPUT_FRAMES 5 3))) of
        None \<Rightarrow> started DISCARD_OUTPUT_FRAMES 5 3
      | Some (rs, p) \<Rightarrow> p)"

definition stalled_submissions :: "(pushInput_env \<times> GstBufferWrapper \<times> nat) list" where
  "stalled_submissions =
     map (\<lambda>k. (submit_at (3000000000 * (int k + 1)), frame0, k)) [0..<10]"

text \<open>
  The calls of the concrete runs: a submission with the user data \<open>u\<close> at time 0, a result
  carrying the id \<open>i\<close>, and an interleaved run of three frames.
\<close>

definition submit :: "nat \<Rightarrow> nat action" where
  "submit u = Push (submit_at 0) frame0 u"

definition deliver :: "gint \<Rightarrow> nat action" where
  "deliver i = Deliver (result_with_id i)"

definition interleaved :: "nat action list" where
  "interleaved =
     [submit 10, submit 11, deliver 0, Pop, deliver 1, submit 12, Pop, deliver 2, Pop]"

section \<open>Properties of the wrapper and of the queue\<close>

lemma env_step_drop: "\<exists>k. queue (env_step e q) = drop k (queue q)"
proof (cases e)
  case EnvPopFront
  show ?thesis
  proof (cases "queue q")
    case Nil
    then show ?thesis using EnvPopFront by (simp add: popFrontWithoutLocking_def)
  next
    case (Cons x xs)
    then have "queue (env_step e q) = drop 1 (queue q)"
      using EnvPopFront by (simp add: popFrontWithoutLocking_def)
    then show ?thesis by blast
  qed
next
  case (EnvSetDiscardEverything b)
  then have "queue (env_step e q) = drop 0 (queue q)"
    by (simp add: setDiscardEverything_def)
  then show ?thesis by blast
next
  case EnvClear
  then have "queue (env_step e q) = drop (length (queue q)) (queue q)"
    by (simp add: clear_def)
  then show ?thesis by blast
qed

lemma fold_env_step_drop: "\<exists>k. queue (fold env_step evs q) = drop k (queue q)"
proof (induction evs arbitrary: q)
  case Nil
  have "queue (fold env_step [] q) = drop 0 (queue q)" by simp
  then show ?case by blast
next
  case (Cons e evs)
  obtain k where k: "queue (env_step e q) = drop k (queue q)"
    using env_step_drop by blast
  obtain j where j: "queue (fold env_step evs (env_step e q)) = drop j (queue (env_step e q))"
    using Cons.IH by blast
  have "queue (fold env_step (e # evs) q) = drop (j + k) (queue q)"
    using k j by simp
  then show ?case by blast
qed

lemma wait_for_space_drop:
  "wait_for_space q env = Some q1 \<Longrightarrow> \<exists>k. queue q1 = drop k (queue q)"
proof (induction env arbitrary: q)
  case Nil
  then have "q1 = q" by (simp split: if_splits)
  then have "queue q1 = drop 0 (queue q)" by simp
  then show ?case by blast
next
  case (Cons evs env)
  show ?case
  proof (cases "length (queue q) \<ge> unat (max_queue_size q) \<and> \<not> discard_everything q")
    case True
    then have "wait_for_space (fold env_step evs q) env = Some q1"
      using Cons.prems by simp
    then obtain k where k: "queue q1 = drop k (queue (fold env_step evs q))"
      using Cons.IH by blast
    obtain j where j: "queue (fold env_step evs q) = drop j (queue q)"
      using fold_env_step_drop by blast
    have "queue q1 = drop (k + j) (queue q)" using k j by simp
    then show ?thesis by blast
  next
    case False
    then have "q1 = q" using Cons.prems by auto
    then have "queue q1 = drop 0 (queue q)" by simp
    then show ?thesis by blast
  qed
qed

lemma wait_for_space_ready:
  "\<not> (length (queue q) \<ge> unat (max_queue_size q) \<and> \<not> discard_everything q) \<Longrightarrow>
   wait_for_space q env = Some q"
  by (cases env) auto

subsection \<open>Moving a GstBufferWrapper\<close>

lemma move_ctor_transfers: "GstBufferWrapper_move_ctor w = (w, w\<lparr>ptr := None\<rparr>)"
  by (simp add: GstBufferWrapper_move_ctor_def Let_def)

lemma moved_from_is_inert: "GstBufferWrapper_dtor (w\<lparr>ptr := None\<rparr>) = []"
  by (simp add: GstBufferWrapper_dtor_def unref_def)

lemma move_assign_fields:
  "GstBufferWrapper_move_assign this other =
     (fst (unref this),
      (snd (unref this))\<lparr>ptr := ptr other, owns_buffer := owns_buffer other,
                         info := info other, mapped := mapped other\<rparr>,
      other\<lparr>ptr := None\<rparr>)"
  by (simp add: GstBufferWrapper_move_assign_def Let_def split_def)

text \<open>
  C6. Moving a \<^verbatim>\<open>GstBufferWrapper\<close> is claimed to transfer the pointer, the owns flag, the
  map info and both mapping flags, and to leave the source with a null pointer. The move
  constructor does (\<open>move_ctor_transfers\<close>, \<open>moved_from_is_inert\<close>). Move assignment does
  not copy \<^verbatim>\<open>mapped_writable_\<close>: a wrapper mapped for writing, obtained by \<^verbatim>\<open>mapWritable\<close>
  on a fresh wrapper of a three-byte buffer, is move-assigned to a fresh null wrapper; the
  destination then holds the pointer, the map info, \<^verbatim>\<open>mapped_ = true\<close> and
  \<^verbatim>\<open>owns_buffer_ = true\<close>, and \<^verbatim>\<open>mapped_writable_ = false\<close>.
\<close>

theorem move_assign_loses_mapped_writable:
  "mapWritable True (GstBufferWrapper_ctor (Some \<lparr>GST_BUFFER_PTS = 0, GST_BUFFER_DTS = 0,
        GST_BUFFER_DURATION = 0, GST_BUFFER_OFFSET = 0, GST_BUFFER_OFFSET_END = 0,
        correspondence_meta = None, memory = [1, 2, 3]\<rparr>))
     = ([], Inr (),
        \<lparr>ptr = Some \<lparr>GST_BUFFER_PTS = 0, GST_BUFFER_DTS = 0,
                    GST_BUFFER_DURATION = 0, GST_BUFFER_OFFSET = 0, GST_BUFFER_OFFSET_END = 0,
                    correspondence_meta = None, memory = [1, 2, 3]\<rparr>,
         info = Some \<lparr>map_flags = GST_MAP_WRITE, map_data = [1, 2, 3], map_size = 3\<rparr>,
         mapped = True, mapped_writable = True, owns_buffer = True\<rparr>)
   \<and> GstBufferWrapper_move_assign (GstBufferWrapper_ctor None)
        \<lparr>ptr = Some \<lparr>GST_BUFFER_PTS = 0, GST_BUFFER_DTS = 0,
                    GST_BUFFER_DURATION = 0, GST_BUFFER_OFFSET = 0, GST_BUFFER_OFFSET_END = 0,
                    correspondence_meta = None, memory = [1, 2, 3]\<rparr>,
         info = Some \<lparr>map_flags = GST_MAP_WRITE, map_data = [1, 2, 3], map_size = 3\<rparr>,
         mapped = True, mapped_writable = True, owns_buffer = True\<rparr>
     = ([],
        \<lparr>ptr = Some \<lparr>GST_BUFFER_PTS = 0, GST_BUFFER_DTS = 0,
                    GST_BUFFER_DURATION = 0, GST_BUFFER_OFFSET = 0, GST_BUFFER_OFFSET_END = 0,
                    correspondence_meta = None, memory = [1, 2, 3]\<rparr>,
         info = Some \<lparr>map_flags = GST_MAP_WRITE, map_data = [1, 2, 3], map_size = 3\<rparr>,
         mapped = True, mapped_writable = False, owns_buffer = True\<rparr>,
        \<lparr>ptr = None,
         info = Some \<lparr>map_flags = GST_MAP_WRITE, map_data = [1, 2, 3], map_size = 3\<rparr>,
         mapped = True, mapped_writable = True, owns_buffer = True\<rparr>)"
  by (simp add: mapWritable_def GstBufferWrapper_ctor_def gst_buffer_map_def
      GstBufferWrapper_move_assign_def unref_def Let_def)

subsection \<open>popFront\<close>

text \<open>
  C10. \<^verbatim>\<open>popFront\<close> with a \<^verbatim>\<open>unique_lock\<close> that does not own its mutex throws
  \<^verbatim>\<open>runtime_error\<close> and leaves the queue as it was; with a lock that owns it and a
  non-empty queue the front element is removed and returned and the space-available
  condition is notified once. The \<^verbatim>\<open>lock_guard\<close> overload and the overload without
  argument go straight to \<^verbatim>\<open>popFrontWithoutLocking\<close>. No overload tests for an empty
  queue: there each of them runs \<^verbatim>\<open>front()\<close> on an empty deque, outside the contract.
\<close>

theorem popFront_contract:
  "popFront_unique_lock False q = (Inl RuntimeError, q)
   \<and> (queue q = element # rest \<longrightarrow>
        popFront_unique_lock True q =
          (Inr element,
           q\<lparr>queue := rest,
             queue_space_available_condition := Suc (queue_space_available_condition q)\<rparr>))
   \<and> popFront_lock_guard q = popFrontWithoutLocking q
   \<and> popFront q = popFrontWithoutLocking q
   \<and> (queue q = [] \<longrightarrow>
        popFront_unique_lock True q = (Inl UndefinedBehaviour, q)
        \<and> popFront_lock_guard q = (Inl UndefinedBehaviour, q)
        \<and> popFront q = (Inl UndefinedBehaviour, q))"
  by (simp add: popFront_unique_lock_def popFront_lock_guard_def popFront_def
      popFrontWithoutLocking_def)

theorem popFront_contract_witness:
  "popFront_unique_lock True
     \<lparr>queue = [7 :: nat, 8], max_queue_size = 5, discard_everything = False,
      queue_filled_condition = 2, queue_space_available_condition = 0\<rparr>
     = (Inr 7, \<lparr>queue = [8], max_queue_size = 5, discard_everything = False,
                queue_filled_condition = 2, queue_space_available_condition = 1\<rparr>)
   \<and> popFront_unique_lock True
       \<lparr>queue = ([] :: nat list), max_queue_size = 5, discard_everything = False,
        queue_filled_condition = 0, queue_space_available_condition = 0\<rparr>
     = (Inl UndefinedBehaviour,
        \<lparr>queue = [], max_queue_size = 5, discard_everything = False,
         queue_filled_condition = 0, queue_space_available_condition = 0\<rparr>)"
  using popFront_contract
          [where q = "\<lparr>queue = [7 :: nat, 8], max_queue_size = 5, discard_everything = False,
                       queue_filled_condition = 2, queue_space_available_condition = 0\<rparr>"
             and element = 7 and rest = "[8]"]
        popFront_contract
          [where q = "\<lparr>queue = ([] :: nat list), max_queue_size = 5, discard_everything = False,
                       queue_filled_condition = 0, queue_space_available_condition = 0\<rparr>"]
  by simp

subsection \<open>pushBack\<close>








subsection \<open>Admission under DISCARD_INPUT_FRAMES\<close>

lemma pushData_rejects:
  "discard_mode q = DISCARD_INPUT_FRAMES \<Longrightarrow>
   length (user_data_queue q) \<ge> unat (max_input_queue_size q) \<Longrightarrow>
   ptr buffer = Some b \<Longrightarrow>
   pushData env port buffer user_data q = (Inr False, q, port)"
  by (simp add: pushData_def)

lemma forward_input_rejects:
  "discard_mode (appsrcsink_queue p) = DISCARD_INPUT_FRAMES \<Longrightarrow>
   length (user_data_queue (appsrcsink_queue p)) \<ge> unat (max_input_queue_size (appsrcsink_queue p)) \<Longrightarrow>
   forward_input env buffer b user_data p =
     (Inr False,
      p\<lparr>time_previous :=
           Some (case time_previous p of None \<Rightarrow> gst_clock_time env - gst_frame_period
                 | Some t \<Rightarrow> t)\<rparr>)"
  by (simp add: forward_input_def Let_def pushData_def)

lemma stop_fields:
  "pipeline p \<Longrightarrow>
   stop p = (Inr (), p\<lparr>calls := calls p @ [stop_called],
      appsrcsink_queue :=
        (appsrcsink_queue p)\<lparr>base := setDiscardEverything True (base (appsrcsink_queue p))\<rparr>,
      terminate := True, message_thread := False\<rparr>)"
  by (simp add: stop_def Let_def)

lemma start_after_stop:
  "pipeline p \<Longrightarrow> \<not> message_thread p \<Longrightarrow>
   start env p =
     (if set_state_ok env then Inr () else Inl RuntimeError,
      p\<lparr>calls := calls p @ [start_called],
        appsrcsink_queue :=
          (appsrcsink_queue p)\<lparr>base := setDiscardEverything False (clear (base (appsrcsink_queue p)))\<rparr>,
        terminate := False,
        watchdog_counter := (if set_state_ok env then 0 else watchdog_counter p),
        last_appsink_sample_time :=
          (if set_state_ok env then start_now env else last_appsink_sample_time p),
        message_thread := (if set_state_ok env then True else message_thread p)\<rparr>)"
  by (simp add: start_def Let_def)

text \<open>
  C3. In mode \<^verbatim>\<open>DISCARD_INPUT_FRAMES\<close>, when the pending queue holds at least
  \<^verbatim>\<open>max_input_queue_size_\<close> entries, \<^verbatim>\<open>pushData\<close> on a valid buffer returns false and
  changes nothing: the queue object is as it was and nothing reaches the ingest port. The
  enclosing \<^verbatim>\<open>pushInput\<close> of an initialised pipeline then returns false as well (or throws,
  when the watchdog restarts the pipeline in that very call and the state change is
  refused), leaves \<^verbatim>\<open>frame_counter_\<close> as it was, hands nothing to the ingest port and
  appends no pending entry.
\<close>

theorem discard_input_rejects:
  assumes mode: "discard_mode (appsrcsink_queue p) = DISCARD_INPUT_FRAMES"
    and full: "length (user_data_queue (appsrcsink_queue p))
               \<ge> unat (max_input_queue_size (appsrcsink_queue p))"
    and init: "pipeline p"
    and buf: "ptr buffer = Some b"
  shows "pushData penv (appsrc p) buffer user_data (appsrcsink_queue p)
           = (Inr False, appsrcsink_queue p, appsrc p)
    \<and> fst (pushInput env buffer user_data p)
         = (if set_state_ok (restart env)
               \<or> \<not> (\<not> delivering_appsink_sample p
                     \<and> clock_now env - last_appsink_sample_time p \<ge> WATCHDOG_TIMEOUT
                     \<and> watchdog_counter p + 1 \<ge> WATCHDOG_RESET_COUNT)
            then Inr False else Inl RuntimeError)
    \<and> frame_counter (snd (pushInput env buffer user_data p)) = frame_counter p
    \<and> appsrc (snd (pushInput env buffer user_data p)) = appsrc p
    \<and> user_data_queue (appsrcsink_queue (snd (pushInput env buffer user_data p)))
         = user_data_queue (appsrcsink_queue p)"
proof -
  have a: "pushData penv (appsrc p) buffer user_data (appsrcsink_queue p)
           = (Inr False, appsrcsink_queue p, appsrc p)"
    using mode full buf by (rule pushData_rejects)
  have fw: "\<And>p'. appsrcsink_queue p' = appsrcsink_queue p \<Longrightarrow>
      forward_input env buffer b user_data p' 
       = (Inr False, p'\<lparr>time_previous :=
           Some (case time_previous p' of None \<Rightarrow> gst_clock_time env - gst_frame_period
                 | Some t \<Rightarrow> t)\<rparr>)"
    using mode full by (simp add: forward_input_rejects)
  show ?thesis
    using a init buf
    by (simp add: pushInput_def Let_def fw stop_fields start_after_stop
        setDiscardEverything_def clear_def)
qed

theorem discard_input_rejects_witness:
  "fst (pushInput (submit_at 1) frame0 2
          (snd (pushInput (submit_at 0) frame0 1 (started DISCARD_INPUT_FRAMES 5 1)))) = Inr False
   \<and> frame_counter (snd (pushInput (submit_at 1) frame0 2
          (snd (pushInput (submit_at 0) frame0 1 (started DISCARD_INPUT_FRAMES 5 1))))) = 1
   \<and> length (appsrc (snd (pushInput (submit_at 1) frame0 2
          (snd (pushInput (submit_at 0) frame0 1 (started DISCARD_INPUT_FRAMES 5 1)))))) = 1
   \<and> map snd (user_data_queue (appsrcsink_queue (snd (pushInput (submit_at 1) frame0 2
          (snd (pushInput (submit_at 0) frame0 1 (started DISCARD_INPUT_FRAMES 5 1))))))) = [1]"
proof -
  let ?p = "snd (pushInput (submit_at 0) frame0 1 (started DISCARD_INPUT_FRAMES 5 1))"
  have mode: "discard_mode (appsrcsink_queue ?p) = DISCARD_INPUT_FRAMES" by code_simp
  have full: "length (user_data_queue (appsrcsink_queue ?p))
               \<ge> unat (max_input_queue_size (appsrcsink_queue ?p))" by code_simp
  have init: "pipeline ?p" by code_simp
  have buf: "ptr frame0 = Some buffer0" by code_simp
  have c: "frame_counter ?p = 1" by code_simp
  have a: "length (appsrc ?p) = 1" by code_simp
  have u: "map snd (user_data_queue (appsrcsink_queue ?p)) = [1]" by code_simp
  have ok: "set_state_ok (restart (submit_at 1))" by code_simp
  show ?thesis
    using discard_input_rejects [OF mode full init buf, of accepting 2 "submit_at 1"] c a u ok
    by simp
qed

subsection \<open>The safety bound of the pending queue\<close>

lemma evict_oldest_length:
  "length (user_data_queue q) \<le> MAX_USER_DATA_QUEUE_SIZE \<Longrightarrow>
   length (user_data_queue (evict_oldest q)) < MAX_USER_DATA_QUEUE_SIZE"
  by (auto simp add: evict_oldest_def Let_def MAX_USER_DATA_QUEUE_SIZE_def)

lemma evict_oldest_queue:
  "user_data_queue (evict_oldest q) =
     (if length (user_data_queue q) \<ge> MAX_USER_DATA_QUEUE_SIZE then tl (user_data_queue q)
      else user_data_queue q)"
  by (simp add: evict_oldest_def Let_def)

lemma evict_oldest_counter:
  "src_overflow_counter (evict_oldest q) =
     (if length (user_data_queue q) \<ge> MAX_USER_DATA_QUEUE_SIZE then
        (if src_overflow_counter q + 1 \<ge> FRAME_DROP_REPORT_RATE then 0
         else src_overflow_counter q + 1)
      else src_overflow_counter q)"
  by (simp add: evict_oldest_def Let_def)

lemma pushData_pending:
  "user_data_queue (fst (snd (pushData env port buffer user_data q))) =
     (case ptr buffer of
        None \<Rightarrow> user_data_queue q
      | Some b \<Rightarrow>
          if (discard_mode q = DISCARD_INPUT_FRAMES
              \<and> length (user_data_queue q) \<ge> unat (max_input_queue_size q))
             \<or> push_buffer_ret env \<noteq> GST_FLOW_OK
          then user_data_queue q
          else user_data_queue (evict_oldest q) @ [(buffer_info_of b, user_data)])"
  by (simp add: pushData_def report_input_def Let_def split: option.splits sum.splits prod.splits)

lemma pushData_src_overflow_counter:
  "src_overflow_counter (fst (snd (pushData env port buffer user_data q))) =
     (case ptr buffer of
        None \<Rightarrow> src_overflow_counter q
      | Some b \<Rightarrow>
          if (discard_mode q = DISCARD_INPUT_FRAMES
              \<and> length (user_data_queue q) \<ge> unat (max_input_queue_size q))
             \<or> push_buffer_ret env \<noteq> GST_FLOW_OK
          then src_overflow_counter q
          else src_overflow_counter (evict_oldest q))"
  by (simp add: pushData_def report_input_def Let_def split: option.splits sum.splits prod.splits)

lemma pushData_bounded:
  assumes "length (user_data_queue q) \<le> MAX_USER_DATA_QUEUE_SIZE"
  shows "length (user_data_queue (fst (snd (pushData env port buffer user_data q))))
         \<le> MAX_USER_DATA_QUEUE_SIZE"
proof -
  have "length (user_data_queue (evict_oldest q)) < MAX_USER_DATA_QUEUE_SIZE"
    using assms by (rule evict_oldest_length)
  then show ?thesis
    using assms by (simp add: pushData_pending split: option.splits)
qed

lemma match_user_data_length:
  "length (snd (match_user_data i xs)) \<le> length xs"
  by (induction xs) auto

lemma count_sink_overflow_pending [simp]:
  "user_data_queue (count_sink_overflow q) = user_data_queue q"
  by (simp add: count_sink_overflow_def Let_def)

lemma count_correspondence_fail_pending [simp]:
  "user_data_queue (count_correspondence_fail q) = user_data_queue q"
  by (simp add: count_correspondence_fail_def Let_def)

lemma publish_pending:
  "publish env t q = Some q1 \<Longrightarrow> user_data_queue q1 = user_data_queue q"
  by (auto simp add: publish_def Let_def split: option.splits if_splits)

lemma match_and_publish_length:
  assumes "match_and_publish env i buffer q = Some (r, q1)"
  shows "length (user_data_queue q1) \<le> length (user_data_queue q)"
proof (cases "user_data_queue q = []")
  case True
  then show ?thesis using assms by (auto simp add: match_and_publish_def)
next
  case False
  obtain res rest where m: "match_user_data i (user_data_queue q) = (res, rest)"
    by (cases "match_user_data i (user_data_queue q)") auto
  have le: "length rest \<le> length (user_data_queue q)"
    using match_user_data_length [of i "user_data_queue q"] m by simp
  show ?thesis
  proof (cases res)
    case (Inl e)
    then show ?thesis using assms False m le by (auto simp add: match_and_publish_def)
  next
    case (Inr tuple)
    then show ?thesis
      using assms False m le
      by (auto simp add: match_and_publish_def split: option.splits dest!: publish_pending)
  qed
qed

lemma newSampleCallback_length:
  assumes "newSampleCallback senv q = Some (r, q1)"
  shows "length (user_data_queue q1) \<le> length (user_data_queue q)"
  using assms
  by (auto simp add: newSampleCallback_def report_output_def Let_def
      split: option.splits if_splits sum.splits prod.splits dest!: match_and_publish_length)

lemma reachable_bounded:
  "reachable q \<Longrightarrow> length (user_data_queue q) \<le> MAX_USER_DATA_QUEUE_SIZE"
proof (induction rule: reachable.induct)
  case (reachable_ctor mode max_output_queue_size max_input)
  then show ?case by (simp add: AppSrcSinkQueue_ctor_def)
next
  case (reachable_pushData q env port buffer user_data r q1 port1)
  then show ?case using pushData_bounded [of q env port buffer user_data] by simp
next
  case (reachable_newSample q senv r q1)
  then show ?case using newSampleCallback_length [of senv q r q1] by simp
next
  case (reachable_base q b)
  then show ?case by simp
qed

lemma reachable_pushData_snd:
  "reachable q \<Longrightarrow> reachable (fst (snd (pushData env port buffer user_data q)))"
  using reachable_pushData [of q env port buffer user_data]
  by (cases "pushData env port buffer user_data q") auto

lemma forward_input_queue:
  "appsrcsink_queue (snd (forward_input env buffer b user_data p)) =
     fst (snd (pushData (push env) (appsrc p)
       (buffer\<lparr>ptr := Some (stamp_input (gst_clock_time env)
          (case time_previous p of None \<Rightarrow> gst_clock_time env - gst_frame_period | Some t \<Rightarrow> t)
          (frame_counter p) b)\<rparr>) user_data (appsrcsink_queue p)))"
  by (simp add: forward_input_def Let_def split: prod.splits sum.splits)

lemma forward_input_reachable:
  "reachable (appsrcsink_queue p) \<Longrightarrow>
   reachable (appsrcsink_queue (snd (forward_input env buffer b user_data p)))"
  by (simp add: forward_input_queue reachable_pushData_snd)

lemma pushInput_reachable:
  assumes "reachable (appsrcsink_queue p)"
  shows "reachable (appsrcsink_queue (snd (pushInput env buffer user_data p)))"
proof -
  have fw: "\<And>p'. appsrcsink_queue p' = appsrcsink_queue p \<Longrightarrow>
     reachable (appsrcsink_queue (snd (forward_input env buffer b user_data p')))" for b
    using assms forward_input_reachable [of _ env buffer b user_data] by simp
  show ?thesis
    using assms
    by (auto simp add: pushInput_def Let_def stop_def start_def fw reachable_base
        split: option.splits prod.splits sum.splits)
qed

lemma pushInputs_snd_Cons:
  "snd (pushInputs ((env, buffer, user_data) # ins) p) =
   snd (pushInputs ins (snd (pushInput env buffer user_data p)))"
  by (simp split: prod.splits)

lemma pushInputs_reachable:
  "reachable (appsrcsink_queue p) \<Longrightarrow> reachable (appsrcsink_queue (snd (pushInputs ins p)))"
proof (induction ins arbitrary: p)
  case Nil
  then show ?case by simp
next
  case (Cons x ins)
  obtain env buffer user_data where x: "x = (env, buffer, user_data)" by (cases x) auto
  have "reachable (appsrcsink_queue (snd (pushInput env buffer user_data p)))"
    using Cons.prems by (rule pushInput_reachable)
  then have "reachable (appsrcsink_queue (snd (pushInputs ins (snd (pushInput env buffer user_data p)))))"
    by (rule Cons.IH)
  then show ?case using x by (simp only: pushInputs_snd_Cons)
qed

lemma started_reachable: "reachable (appsrcsink_queue (started mode n m))"
proof -
  have "appsrcsink_queue (started mode n m) =
        (AppSrcSinkQueue_ctor mode n m)\<lparr>base := base (appsrcsink_queue (started mode n m))\<rparr>"
    by (simp add: started_def start_def initialize_def GstreamerPipeline_ctor_def Let_def stop_def)
  then show ?thesis
    using reachable_base [OF reachable_ctor [of mode n m],
            where b = "base (appsrcsink_queue (started mode n m))"]
    by simp
qed


text \<open>
  C7. The pending queue of a reachable \<^verbatim>\<open>AppSrcSinkQueue\<close> never holds more than
  \<^verbatim>\<open>MAX_USER_DATA_QUEUE_SIZE\<close> (100) entries, and \<^verbatim>\<open>pushData\<close> keeps the bound. When
  \<^verbatim>\<open>pushData\<close> gets past the admission test, the ingest port accepts the buffer and the
  queue holds 100 entries or more, the oldest entry is removed, \<^verbatim>\<open>src_overflow_counter_\<close>
  is incremented (and set back to 0 when it reaches \<^verbatim>\<open>FRAME_DROP_REPORT_RATE\<close>), and the
  new entry is appended; the discard mode is read by the admission test only.
\<close>

theorem pending_queue_bounded:
  "(reachable q \<longrightarrow> length (user_data_queue q) \<le> MAX_USER_DATA_QUEUE_SIZE)
   \<and> (length (user_data_queue q) \<le> MAX_USER_DATA_QUEUE_SIZE \<longrightarrow>
        length (user_data_queue (fst (snd (pushData env port buffer user_data q))))
          \<le> MAX_USER_DATA_QUEUE_SIZE)
   \<and> (ptr buffer = Some b
        \<and> \<not> (discard_mode q = DISCARD_INPUT_FRAMES
               \<and> length (user_data_queue q) \<ge> unat (max_input_queue_size q))
        \<and> push_buffer_ret env = GST_FLOW_OK
        \<and> length (user_data_queue q) \<ge> MAX_USER_DATA_QUEUE_SIZE \<longrightarrow>
        user_data_queue (fst (snd (pushData env port buffer user_data q)))
          = tl (user_data_queue q) @ [(buffer_info_of b, user_data)]
        \<and> src_overflow_counter (fst (snd (pushData env port buffer user_data q)))
          = (if src_overflow_counter q + 1 \<ge> FRAME_DROP_REPORT_RATE then 0
             else src_overflow_counter q + 1))"
proof (intro conjI impI)
  assume "reachable q"
  then show "length (user_data_queue q) \<le> MAX_USER_DATA_QUEUE_SIZE"
    by (rule reachable_bounded)
next
  assume "length (user_data_queue q) \<le> MAX_USER_DATA_QUEUE_SIZE"
  then show "length (user_data_queue (fst (snd (pushData env port buffer user_data q))))
          \<le> MAX_USER_DATA_QUEUE_SIZE"
    by (rule pushData_bounded)
next
  assume h: "ptr buffer = Some b
        \<and> \<not> (discard_mode q = DISCARD_INPUT_FRAMES
               \<and> length (user_data_queue q) \<ge> unat (max_input_queue_size q))
        \<and> push_buffer_ret env = GST_FLOW_OK
        \<and> length (user_data_queue q) \<ge> MAX_USER_DATA_QUEUE_SIZE"
  then show "user_data_queue (fst (snd (pushData env port buffer user_data q)))
          = tl (user_data_queue q) @ [(buffer_info_of b, user_data)]"
    by (auto simp add: pushData_pending evict_oldest_queue)
  from h show "src_overflow_counter (fst (snd (pushData env port buffer user_data q)))
          = (if src_overflow_counter q + 1 \<ge> FRAME_DROP_REPORT_RATE then 0
             else src_overflow_counter q + 1)"
    by (auto simp add: pushData_src_overflow_counter evict_oldest_counter)
qed

lemma hundred_pending:
  "(let q = appsrcsink_queue (snd (pushInputs (submissions 100) (started DISCARD_OUTPUT_FRAMES 5 3)))
    in (discard_mode q, length (user_data_queue q), src_overflow_counter q))
   = (DISCARD_OUTPUT_FRAMES, 100, 0)"
  by code_simp

theorem pending_queue_bounded_witness:
  "length (user_data_queue (appsrcsink_queue
      (snd (pushInputs (submissions 100) (started DISCARD_OUTPUT_FRAMES 5 3))))) = 100
   \<and> user_data_queue (fst (snd (pushData accepting [] frame0 100
        (appsrcsink_queue (snd (pushInputs (submissions 100) (started DISCARD_OUTPUT_FRAMES 5 3)))))))
      = tl (user_data_queue (appsrcsink_queue
              (snd (pushInputs (submissions 100) (started DISCARD_OUTPUT_FRAMES 5 3)))))
        @ [(buffer_info_of buffer0, 100)]
   \<and> src_overflow_counter (fst (snd (pushData accepting [] frame0 100
        (appsrcsink_queue (snd (pushInputs (submissions 100) (started DISCARD_OUTPUT_FRAMES 5 3)))))))
      = 1
   \<and> length (user_data_queue (fst (snd (pushData accepting [] frame0 100
        (appsrcsink_queue (snd (pushInputs (submissions 100) (started DISCARD_OUTPUT_FRAMES 5 3))))))))
      \<le> MAX_USER_DATA_QUEUE_SIZE"
proof -
  let ?q = "appsrcsink_queue (snd (pushInputs (submissions 100) (started DISCARD_OUTPUT_FRAMES 5 3)))"
  have r: "reachable (fst (snd (pushData accepting [] frame0 100 ?q)))"
    by (rule reachable_pushData_snd [OF pushInputs_reachable [OF started_reachable]])
  have buf: "ptr frame0 = Some buffer0" by code_simp
  have ok: "push_buffer_ret accepting = GST_FLOW_OK" by code_simp
  have mode: "discard_mode ?q = DISCARD_OUTPUT_FRAMES"
    and len: "length (user_data_queue ?q) = 100"
    and c: "src_overflow_counter ?q = 0"
    using hundred_pending by (simp_all add: Let_def)
  have evict: "user_data_queue (fst (snd (pushData accepting [] frame0 100 ?q)))
          = tl (user_data_queue ?q) @ [(buffer_info_of buffer0, 100)]
        \<and> src_overflow_counter (fst (snd (pushData accepting [] frame0 100 ?q))) = 1"
    using pending_queue_bounded
            [where q = ?q and buffer = frame0 and b = buffer0 and env = accepting
               and port = "[]" and user_data = 100]
          buf mode ok len c
    by (simp add: MAX_USER_DATA_QUEUE_SIZE_def FRAME_DROP_REPORT_RATE_def word_le_nat_alt)
  have bound: "length (user_data_queue (fst (snd (pushData accepting [] frame0 100 ?q))))
      \<le> MAX_USER_DATA_QUEUE_SIZE"
    using pending_queue_bounded
            [where q = "fst (snd (pushData accepting [] frame0 100 ?q))"] r
    by blast
  show ?thesis using len evict bound by blast
qed

subsection \<open>Matching a result with its pending entry\<close>

text \<open>The conversions between the 32-bit id and the 64-bit offset.\<close>

lemma uint_scast_nonneg:
  assumes "0 \<le> sint (i :: 32 word)"
  shows "uint (scast i :: 64 word) = sint i"
proof -
  have "sint i < 2 ^ (LENGTH(32) - 1)" by (rule sint_lt)
  then have "sint i < 2 ^ 31" by simp
  also have "(2 :: int) ^ 31 \<le> 2 ^ 64" by (rule power_increasing) simp_all
  finally have lt: "sint i < 2 ^ 64" .
  have "take_bit 64 (sint i) = sint i"
    using assms lt by (rule take_bit_int_eq_self)
  then show ?thesis by (simp only: scast_eq uint_word_of_int_eq len_bit0 len_num1) simp
qed

lemma scast_less_iff_nonneg:
  "0 \<le> sint (i :: 32 word) \<Longrightarrow> ((scast i :: 64 word) < x) = (sint i < uint x)"
  by (simp only: word_less_def uint_scast_nonneg)

lemma ucast_small:
  assumes "(x :: 64 word) < 2 ^ 31"
  shows "(scast (ucast x :: 32 word) :: 64 word) = x \<and> (ucast x :: 32 word) \<noteq> - 1"
proof -
  have "uint x < uint (2 ^ 31 :: 64 word)" using assms by (simp only: word_less_def)
  moreover have "uint (2 ^ 31 :: 64 word) = 2 ^ 31" by simp
  ultimately have u: "uint x < 2 ^ 31" by simp
  have u0: "0 \<le> uint x" by simp
  have "(2 :: int) ^ 31 \<le> 2 ^ 32" by (rule power_increasing) simp_all
  then have u32: "uint x < 2 ^ 32" using u by linarith
  have "uint (ucast x :: 32 word) = take_bit LENGTH(32) (uint x)"
    by (rule unsigned_ucast_eq)
  also have "\<dots> = take_bit 32 (uint x)" by simp
  also have "\<dots> = uint x" using u0 u32 by (rule take_bit_int_eq_self)
  finally have uc: "uint (ucast x :: 32 word) = uint x" .
  have n: "- (2 ^ 31) \<le> uint x" using u0 by (smt (verit) zero_less_power)
  have "sint (ucast x :: 32 word) = signed_take_bit (LENGTH(32) - Suc 0) (uint (ucast x :: 32 word))"
    by (rule sint_uint)
  also have "\<dots> = signed_take_bit 31 (uint x)" using uc by simp
  also have "\<dots> = uint x" using n u by (rule signed_take_bit_int_eq_self)
  finally have s: "sint (ucast x :: 32 word) = uint x" .
  have a: "(scast (ucast x :: 32 word) :: 64 word) = x"
    by (simp only: scast_eq s) simp
  have b: "(ucast x :: 32 word) \<noteq> - 1"
  proof
    assume "(ucast x :: 32 word) = - 1"
    then have "sint (ucast x :: 32 word) = sint (- 1 :: 32 word)" by simp
    then have "uint x = - 1" using s by simp
    then show False using u0 by linarith
  qed
  show ?thesis using a b by simp
qed

lemma swap_fresh_wrappers:
  "fst (swap_wrappers (GstBufferWrapper_ctor2 (Some b) False) (GstBufferWrapper_ctor (Some c)))
     = GstBufferWrapper_ctor (Some c)"
  by (simp add: swap_wrappers_def GstBufferWrapper_move_ctor_def GstBufferWrapper_move_assign_def
      GstBufferWrapper_ctor_def GstBufferWrapper_ctor2_def unref_def Let_def)

lemma getSize_fresh:
  "getSize True (GstBufferWrapper_ctor (Some b)) =
     Inr (of_nat (length (memory b)), copy_wrapper b)"
  by (simp add: getSize_def ensureMapped_def map_buffer_def gst_buffer_map_def
      GstBufferWrapper_ctor_def copy_wrapper_def)

lemma copy_wrapper_made:
  "getSize True
     (fst (swap_wrappers (GstBufferWrapper_ctor2 (Some b) False) (GstBufferWrapper_ctor (Some b))))
   = Inr (of_nat (length (memory b)), copy_wrapper b)"
  by (simp only: swap_fresh_wrappers getSize_fresh)

lemma matched_pair_fields:
  "ptr (fst (matched_pair b entry)) =
     Some (b\<lparr>GST_BUFFER_PTS := pts (fst entry), GST_BUFFER_DTS := dts (fst entry),
             GST_BUFFER_DURATION := duration (fst entry),
             GST_BUFFER_OFFSET := offset (fst entry),
             GST_BUFFER_OFFSET_END := offset_end (fst entry)\<rparr>)
   \<and> owns_buffer (fst (matched_pair b entry))
   \<and> snd (matched_pair b entry) = snd entry"
  by (simp add: matched_pair_def stamp_buffer_def copy_wrapper_def)

text \<open>A result that carries an id and can be copied and mapped reaches the lookup.\<close>

lemma newSampleCallback_reaches_match:
  assumes "pulled_sample env = Some b" "correspondence_meta b = Some i" "i \<noteq> - 1"
    "copy_ok env" "output_map_ok env"
  shows "newSampleCallback env q =
     match_and_publish env i (copy_wrapper b)
       (report_output (output_report env) (of_nat (length (memory b)))
          (q\<lparr>output_frame_rate_counter := Suc (output_frame_rate_counter q)\<rparr>))"
  using assms by (simp add: newSampleCallback_def Let_def copy_wrapper_made)

lemma report_output_fields [simp]:
  "base (report_output r sz q) = base q"
  "user_data_queue (report_output r sz q) = user_data_queue q"
  "discard_mode (report_output r sz q) = discard_mode q"
  "sink_overflow_counter (report_output r sz q) = sink_overflow_counter q"
  "console (report_output r sz q) = console q @ (if r then [Outputting_buffers_rate] else [])"
  by (simp_all add: report_output_def Let_def)








lemma match_user_data_skips:
  "\<forall>e \<in> set stale. offset (fst e) < scast i \<Longrightarrow> offset (fst entry) = scast i \<Longrightarrow>
   match_user_data i (stale @ entry # rest) = (Inr entry, rest)"
proof (induction stale)
  case Nil
  then show ?case by simp
next
  case (Cons e stale)
  have lt: "offset (fst e) < scast i" using Cons.prems(1) by simp
  then have "\<not> (scast i :: guint64) < offset (fst e)" by simp
  moreover have "match_user_data i (stale @ entry # rest) = (Inr entry, rest)"
    using Cons by simp
  ultimately show ?case using lt by simp
qed

lemma ascending_prefix_smaller:
  assumes "sorted_wrt (<) (map (\<lambda>e. offset (fst e)) xs)" "K < length xs"
  shows "\<forall>e \<in> set (take K xs). offset (fst e) < offset (fst (xs ! K))"
proof
  fix e assume "e \<in> set (take K xs)"
  then obtain j where j: "j < length (take K xs)" "e = take K xs ! j"
    by (auto simp add: in_set_conv_nth)
  then have jK: "j < K" and e: "e = xs ! j" by simp_all
  have "map (\<lambda>e. offset (fst e)) xs ! j < map (\<lambda>e. offset (fst e)) xs ! K"
    using assms jK by (simp add: sorted_wrt_iff_nth_less)
  then show "offset (fst e) < offset (fst (xs ! K))"
    using assms(2) jK e by simp
qed

lemma match_user_data_at:
  assumes "sorted_wrt (<) (map (\<lambda>e. offset (fst e)) xs)" "K < length xs"
    "offset (fst (xs ! K)) = scast i"
  shows "match_user_data i xs = (Inr (xs ! K), drop (Suc K) xs)"
proof -
  have "\<forall>e \<in> set (take K xs). offset (fst e) < scast i"
    using ascending_prefix_smaller [OF assms(1,2)] assms(3) by simp
  then have "match_user_data i (take K xs @ xs ! K # drop (Suc K) xs)
               = (Inr (xs ! K), drop (Suc K) xs)"
    using assms(3) by (rule match_user_data_skips)
  then show ?thesis using assms(2) by (simp add: id_take_nth_drop [symmetric])
qed

lemma count_sink_overflow_base [simp]: "base (count_sink_overflow q) = base q"
  by (simp add: count_sink_overflow_def Let_def)

lemma pushBack_queue:
  assumes "pushBack t block env bq = Some (pushed, bq1)"
  shows "\<exists>k. queue bq1 = drop k (queue bq) @ (if pushed then [t] else [])"
proof (cases block)
  case True
  then obtain w where w: "wait_for_space bq env = Some w"
    using assms by (auto simp add: pushBack_def split: option.splits)
  obtain k where k: "queue w = drop k (queue bq)"
    using wait_for_space_drop [OF w] by blast
  have "queue bq1 = queue w @ (if pushed then [t] else [])"
    using assms True w by (auto simp add: pushBack_def split: if_splits)
  then show ?thesis using k by auto
next
  case False
  then have "queue bq1 = drop 0 (queue bq) @ (if pushed then [t] else [])"
    using assms by (auto simp add: pushBack_def split: if_splits)
  then show ?thesis by blast
qed

lemma publish_queue:
  assumes "publish env t q = Some q1"
  shows "user_data_queue q1 = user_data_queue q
         \<and> (\<exists>k. queue (base q1) = drop k (queue (base q)) @ [t]
                \<or> queue (base q1) = drop k (queue (base q)))"
proof -
  obtain pushed bq1 where
    p: "pushBack t (discard_mode q \<noteq> DISCARD_OUTPUT_FRAMES) env (base q) = Some (pushed, bq1)"
    using assms by (auto simp add: publish_def Let_def split: option.splits)
  have q1: "user_data_queue q1 = user_data_queue q \<and> base q1 = bq1"
    using assms p by (auto simp add: publish_def Let_def split: if_splits)
  obtain k where "queue bq1 = drop k (queue (base q)) @ (if pushed then [t] else [])"
    using pushBack_queue [OF p] by blast
  then have "queue (base q1) = drop k (queue (base q)) @ [t]
                \<or> queue (base q1) = drop k (queue (base q))"
    using q1 by (cases pushed) auto
  then show ?thesis using q1 by blast
qed

lemma publish_room:
  assumes "length (queue (base q)) < unat (max_queue_size (base q))"
    "\<not> discard_everything (base q)"
  shows "publish env t q =
     Some (q\<lparr>base := (base q)\<lparr>queue := queue (base q) @ [t],
                queue_filled_condition := Suc (queue_filled_condition (base q))\<rparr>\<rparr>)"
  using assms by (simp add: publish_def pushBack_def wait_for_space_ready Let_def)

lemma publish_nonblocking:
  "discard_mode q = DISCARD_OUTPUT_FRAMES \<Longrightarrow> publish env t q \<noteq> None"
  by (simp add: publish_def pushBack_def Let_def)

lemma numeric_hit:
  assumes "sint (i :: gint) = uint (x :: guint64)"
  shows "x = scast i \<and> i \<noteq> - 1"
proof -
  have nn: "0 \<le> sint i" using assms by simp
  have "uint (scast i :: guint64) = uint x"
    using uint_scast_nonneg [OF nn] assms by simp
  then have a: "x = scast i" by (simp only: word_uint_eq_iff)
  have b: "i \<noteq> - 1"
  proof
    assume "i = - 1"
    then have "sint i = - 1" by simp
    then show False using nn by simp
  qed
  show ?thesis using a b by simp
qed

text \<open>
  C4. The pending queue holds entries with ascending offsets, and an egress result arrives
  whose correspondence id is the offset of the entry at index \<open>K\<close> (the \<open>(K+1)\<close>-th); an
  id and an offset that are the same number are such (\<open>numeric_hit\<close>). Then the lookup
  pops the \<open>K\<close> entries before it and that entry, which it returns. Whenever
  \<^verbatim>\<open>newSampleCallback\<close> returns, it returns \<^verbatim>\<open>GST_FLOW_OK\<close>, the pending queue is what came
  after the entry, and the output queue is what was left of the old one with at most one
  pair appended. That pair is the entry's user data with a wrapper that owns the deep copy
  of the result buffer, mapped for reading: the copy has the payload and the
  correspondence meta of the result, and its five timing fields are those of the entry.
  The \<open>K\<close> skipped entries are in neither queue. With room in the output queue and drain
  mode off the callback returns and the pair is appended; in mode
  \<^verbatim>\<open>DISCARD_OUTPUT_FRAMES\<close> it always returns.
\<close>

theorem stale_entries_are_skipped:
  assumes ascending: "sorted_wrt (<) (map (\<lambda>e. offset (fst e)) (user_data_queue q))"
    and K: "K < length (user_data_queue q)"
    and hit: "offset (fst (user_data_queue q ! K)) = scast i"
    and sample: "pulled_sample env = Some b" "correspondence_meta b = Some i" "i \<noteq> - 1"
    and copy: "copy_ok env" "output_map_ok env"
    and pair: "pair =
      (\<lparr>ptr = Some (b\<lparr>GST_BUFFER_PTS := pts (fst (user_data_queue q ! K)),
                       GST_BUFFER_DTS := dts (fst (user_data_queue q ! K)),
                       GST_BUFFER_DURATION := duration (fst (user_data_queue q ! K)),
                       GST_BUFFER_OFFSET := offset (fst (user_data_queue q ! K)),
                       GST_BUFFER_OFFSET_END := offset_end (fst (user_data_queue q ! K))\<rparr>),
        info = Some \<lparr>map_flags = GST_MAP_READ, map_data = memory b,
                     map_size = of_nat (length (memory b))\<rparr>,
        mapped = True, mapped_writable = False, owns_buffer = True\<rparr>,
       snd (user_data_queue q ! K))"
  shows "match_user_data i (user_data_queue q)
           = (Inr (user_data_queue q ! K), drop (Suc K) (user_data_queue q))
    \<and> (\<forall>r q1. newSampleCallback env q = Some (r, q1) \<longrightarrow>
          r = Inr GST_FLOW_OK
          \<and> user_data_queue q1 = drop (Suc K) (user_data_queue q)
          \<and> (\<exists>k. queue (base q1) = drop k (queue (base q)) @ [pair]
                 \<or> queue (base q1) = drop k (queue (base q))))
    \<and> (length (queue (base q)) < unat (max_queue_size (base q))
        \<and> \<not> discard_everything (base q) \<longrightarrow>
          (\<exists>q1. newSampleCallback env q = Some (Inr GST_FLOW_OK, q1)
             \<and> user_data_queue q1 = drop (Suc K) (user_data_queue q)
             \<and> queue (base q1) = queue (base q) @ [pair]))
    \<and> (discard_mode q = DISCARD_OUTPUT_FRAMES \<longrightarrow> newSampleCallback env q \<noteq> None)"
proof -
  let ?q3 = "report_output (output_report env) (of_nat (length (memory b)))
          (q\<lparr>output_frame_rate_counter := Suc (output_frame_rate_counter q)\<rparr>)"
  let ?rest = "drop (Suc K) (user_data_queue q)"
  have pm: "pair = (stamp_buffer (fst (user_data_queue q ! K)) (copy_wrapper b),
                    snd (user_data_queue q ! K))"
    unfolding pair by (simp add: stamp_buffer_def copy_wrapper_def)
  have m: "match_user_data i (user_data_queue q) = (Inr (user_data_queue q ! K), ?rest)"
    using ascending K hit by (rule match_user_data_at)
  have ne: "user_data_queue q \<noteq> []" using K by auto
  have cb: "newSampleCallback env q =
      (case publish (schedule env) pair (?q3\<lparr>user_data_queue := ?rest\<rparr>) of
         None \<Rightarrow> None | Some q1 \<Rightarrow> Some (Inr GST_FLOW_OK, q1))"
    using m ne
    by (simp add: newSampleCallback_reaches_match [OF sample copy] match_and_publish_def pm)
  have a: "\<forall>r q1. newSampleCallback env q = Some (r, q1) \<longrightarrow>
          r = Inr GST_FLOW_OK
          \<and> user_data_queue q1 = ?rest
          \<and> (\<exists>k. queue (base q1) = drop k (queue (base q)) @ [pair]
                 \<or> queue (base q1) = drop k (queue (base q)))"
  proof (intro allI impI)
    fix r q1 assume "newSampleCallback env q = Some (r, q1)"
    then have p: "publish (schedule env) pair (?q3\<lparr>user_data_queue := ?rest\<rparr>) = Some q1"
      and r: "r = Inr GST_FLOW_OK"
      using cb by (auto split: option.splits)
    show "r = Inr GST_FLOW_OK
          \<and> user_data_queue q1 = ?rest
          \<and> (\<exists>k. queue (base q1) = drop k (queue (base q)) @ [pair]
                 \<or> queue (base q1) = drop k (queue (base q)))"
      using publish_queue [OF p] r by simp
  qed
  have b: "length (queue (base q)) < unat (max_queue_size (base q))
        \<and> \<not> discard_everything (base q) \<longrightarrow>
          (\<exists>q1. newSampleCallback env q = Some (Inr GST_FLOW_OK, q1)
             \<and> user_data_queue q1 = ?rest
             \<and> queue (base q1) = queue (base q) @ [pair])"
  proof
    assume room: "length (queue (base q)) < unat (max_queue_size (base q))
        \<and> \<not> discard_everything (base q)"
    have "publish (schedule env) pair (?q3\<lparr>user_data_queue := ?rest\<rparr>) =
       Some ((?q3\<lparr>user_data_queue := ?rest\<rparr>)\<lparr>base := (base q)\<lparr>queue := queue (base q) @ [pair],
                queue_filled_condition := Suc (queue_filled_condition (base q))\<rparr>\<rparr>)"
      using room publish_room [of "?q3\<lparr>user_data_queue := ?rest\<rparr>" "schedule env" pair]
      by simp
    then show "\<exists>q1. newSampleCallback env q = Some (Inr GST_FLOW_OK, q1)
             \<and> user_data_queue q1 = ?rest
             \<and> queue (base q1) = queue (base q) @ [pair]"
      using cb by simp
  qed
  have c: "discard_mode q = DISCARD_OUTPUT_FRAMES \<longrightarrow> newSampleCallback env q \<noteq> None"
  proof
    assume "discard_mode q = DISCARD_OUTPUT_FRAMES"
    then have "publish (schedule env) pair (?q3\<lparr>user_data_queue := ?rest\<rparr>) \<noteq> None"
      using publish_nonblocking [of "?q3\<lparr>user_data_queue := ?rest\<rparr>" "schedule env" pair]
      by simp
    then show "newSampleCallback env q \<noteq> None" using cb by (auto split: option.splits)
  qed
  show ?thesis using m a b c by blast
qed

theorem stale_entries_are_skipped_witness:
  "\<exists>q1. newSampleCallback (result_with_id 1) (appsrcsink_queue three_submitted)
           = Some (Inr GST_FLOW_OK, q1)
      \<and> user_data_queue q1 =
          [(\<lparr>pts = 100000000, dts = - 1, duration = 100000000, offset = 2, offset_end = - 1\<rparr>,
            2)]
      \<and> queue (base q1) =
          [(\<lparr>ptr = Some \<lparr>GST_BUFFER_PTS = 100000000, GST_BUFFER_DTS = - 1,
                          GST_BUFFER_DURATION = 100000000, GST_BUFFER_OFFSET = 1,
                          GST_BUFFER_OFFSET_END = - 1, correspondence_meta = Some 1,
                          memory = [1, 2, 3]\<rparr>,
             info = Some \<lparr>map_flags = GST_MAP_READ, map_data = [1, 2, 3], map_size = 3\<rparr>,
             mapped = True, mapped_writable = False, owns_buffer = True\<rparr>,
            1)]"
proof -
  let ?q = "appsrcsink_queue three_submitted"
  have udq: "user_data_queue ?q =
      [(\<lparr>pts = 0, dts = - 1, duration = 100000000, offset = 0, offset_end = - 1\<rparr>, 0),
       (\<lparr>pts = 100000000, dts = - 1, duration = 100000000, offset = 1, offset_end = - 1\<rparr>, 1),
       (\<lparr>pts = 100000000, dts = - 1, duration = 100000000, offset = 2, offset_end = - 1\<rparr>, 2)]"
    by code_simp
  have out: "queue (base ?q) = []" by code_simp
  have ascending: "sorted_wrt (<) (map (\<lambda>e. offset (fst e)) (user_data_queue ?q))"
    unfolding udq by simp
  have K: "1 < length (user_data_queue ?q)" unfolding udq by simp
  have "sint (1 :: gint) = uint (offset (fst (user_data_queue ?q ! 1)))"
    unfolding udq by simp
  then have hit: "offset (fst (user_data_queue ?q ! 1)) = scast (1 :: gint)"
    by (simp only: numeric_hit)
  have sample: "pulled_sample (result_with_id 1) = Some (buffer0\<lparr>correspondence_meta := Some 1\<rparr>)"
    "correspondence_meta (buffer0\<lparr>correspondence_meta := Some 1\<rparr>) = Some 1"
    "(1 :: gint) \<noteq> - 1"
    by (simp_all add: result_with_id_def)
  have copy: "copy_ok (result_with_id 1)" "output_map_ok (result_with_id 1)"
    by (simp_all add: result_with_id_def)
  have room: "length (queue (base ?q)) < unat (max_queue_size (base ?q))
        \<and> \<not> discard_everything (base ?q)" by code_simp
  show ?thesis
    using stale_entries_are_skipped [OF ascending K hit sample copy refl] room
    unfolding udq out
    by (simp add: numeral_2_eq_2 buffer0_def)
qed

subsection \<open>Publishing under DISCARD_OUTPUT_FRAMES\<close>

lemma count_sink_overflow_fields:
  "sink_overflow_counter (count_sink_overflow q) =
     (if sink_overflow_counter q + 1 \<ge> FRAME_DROP_REPORT_RATE then 0
      else sink_overflow_counter q + 1)"
  "console (count_sink_overflow q) =
     console q @ (if sink_overflow_counter q + 1 \<ge> FRAME_DROP_REPORT_RATE
                  then [WARNING_output_queue_full] else [])"
  by (simp_all add: count_sink_overflow_def Let_def)

lemma publish_full_nonblocking:
  assumes "discard_mode q = DISCARD_OUTPUT_FRAMES"
    "length (queue (base q)) \<ge> unat (max_queue_size (base q))"
  shows "publish env t q = Some (count_sink_overflow q)"
  using assms by (simp add: publish_def pushBack_def Let_def)

lemma newSampleCallback_nonblocking:
  assumes "discard_mode q = DISCARD_OUTPUT_FRAMES"
  shows "newSampleCallback env q \<noteq> None"
proof -
  have p: "\<And>t q'. discard_mode q' = DISCARD_OUTPUT_FRAMES \<Longrightarrow>
             publish (schedule env) t q' \<noteq> None"
    by (rule publish_nonblocking)
  have m: "match_and_publish env i buffer q' \<noteq> None"
    if d: "discard_mode q' = DISCARD_OUTPUT_FRAMES"
    for i buffer and q' :: "'a AppSrcSinkQueue"
  proof (cases "match_user_data i (user_data_queue q')")
    case (Pair res rest)
    show ?thesis
    proof (cases res)
      case (Inl e)
      then show ?thesis using Pair by (simp add: match_and_publish_def)
    next
      case (Inr tuple)
      have "publish (schedule env) (stamp_buffer (fst tuple) buffer, snd tuple)
              (q'\<lparr>user_data_queue := rest\<rparr>) \<noteq> None"
        using d by (simp add: p)
      then show ?thesis using Pair Inr by (auto simp add: match_and_publish_def)
    qed
  qed
  have m': "(\<exists>r q1. match_and_publish env i buffer q' = Some (r, q1)) = True"
    if d: "discard_mode q' = DISCARD_OUTPUT_FRAMES"
    for i buffer and q' :: "'a AppSrcSinkQueue"
    using m [OF d, of i buffer] by auto
  show ?thesis
    using assms
    by (auto simp add: newSampleCallback_def Let_def m' split: option.splits sum.splits)
qed

text \<open>
  C9. In mode \<^verbatim>\<open>DISCARD_OUTPUT_FRAMES\<close> \<^verbatim>\<open>newSampleCallback\<close> always returns, whatever other
  threads do. When the output queue is full and the result is matched with a pending
  entry, the callback returns \<^verbatim>\<open>GST_FLOW_OK\<close>, the output queue object is as it was (the
  pair is dropped), \<^verbatim>\<open>sink_overflow_counter_\<close> is incremented, and when it reaches
  \<^verbatim>\<open>FRAME_DROP_REPORT_RATE\<close> the warning is printed and the counter is set back to 0.
\<close>

theorem discard_output_drops_when_full:
  "(discard_mode q = DISCARD_OUTPUT_FRAMES \<longrightarrow> newSampleCallback env q \<noteq> None)
   \<and> (discard_mode q = DISCARD_OUTPUT_FRAMES
       \<and> length (queue (base q)) \<ge> unat (max_queue_size (base q))
       \<and> pulled_sample env = Some b \<and> correspondence_meta b = Some i \<and> i \<noteq> - 1
       \<and> copy_ok env \<and> output_map_ok env
       \<and> user_data_queue q \<noteq> []
       \<and> match_user_data i (user_data_queue q) = (Inr entry, rest) \<longrightarrow>
       (\<exists>q1. newSampleCallback env q = Some (Inr GST_FLOW_OK, q1)
          \<and> base q1 = base q
          \<and> user_data_queue q1 = rest
          \<and> sink_overflow_counter q1 =
              (if sink_overflow_counter q + 1 \<ge> FRAME_DROP_REPORT_RATE then 0
               else sink_overflow_counter q + 1)
          \<and> console q1 =
              console q @ (if output_report env then [Outputting_buffers_rate] else [])
                @ (if sink_overflow_counter q + 1 \<ge> FRAME_DROP_REPORT_RATE
                   then [WARNING_output_queue_full] else [])))"
proof (intro conjI impI)
  assume "discard_mode q = DISCARD_OUTPUT_FRAMES"
  then show "newSampleCallback env q \<noteq> None" by (rule newSampleCallback_nonblocking)
next
  assume h: "discard_mode q = DISCARD_OUTPUT_FRAMES
       \<and> length (queue (base q)) \<ge> unat (max_queue_size (base q))
       \<and> pulled_sample env = Some b \<and> correspondence_meta b = Some i \<and> i \<noteq> - 1
       \<and> copy_ok env \<and> output_map_ok env
       \<and> user_data_queue q \<noteq> []
       \<and> match_user_data i (user_data_queue q) = (Inr entry, rest)"
  let ?q3 = "report_output (output_report env) (of_nat (length (memory b)))
          (q\<lparr>output_frame_rate_counter := Suc (output_frame_rate_counter q)\<rparr>)"
  have cb: "newSampleCallback env q = match_and_publish env i (copy_wrapper b) ?q3"
    using h by (simp add: newSampleCallback_reaches_match)
  have pub: "publish (schedule env) (stamp_buffer (fst entry) (copy_wrapper b), snd entry)
               (?q3\<lparr>user_data_queue := rest\<rparr>)
             = Some (count_sink_overflow (?q3\<lparr>user_data_queue := rest\<rparr>))"
    using h by (simp add: publish_full_nonblocking)
  have "newSampleCallback env q
          = Some (Inr GST_FLOW_OK, count_sink_overflow (?q3\<lparr>user_data_queue := rest\<rparr>))"
    using h cb pub by (simp add: match_and_publish_def)
  then show "\<exists>q1. newSampleCallback env q = Some (Inr GST_FLOW_OK, q1)
          \<and> base q1 = base q
          \<and> user_data_queue q1 = rest
          \<and> sink_overflow_counter q1 =
              (if sink_overflow_counter q + 1 \<ge> FRAME_DROP_REPORT_RATE then 0
               else sink_overflow_counter q + 1)
          \<and> console q1 =
              console q @ (if output_report env then [Outputting_buffers_rate] else [])
                @ (if sink_overflow_counter q + 1 \<ge> FRAME_DROP_REPORT_RATE
                   then [WARNING_output_queue_full] else [])"
    by (simp add: count_sink_overflow_fields)
qed

theorem discard_output_drops_when_full_witness:
  "\<exists>q1. newSampleCallback (result_with_id 1) (appsrcsink_queue one_slot_full)
           = Some (Inr GST_FLOW_OK, q1)
      \<and> base q1 = base (appsrcsink_queue one_slot_full)
      \<and> user_data_queue q1 = []
      \<and> sink_overflow_counter q1 = 1"
proof -
  let ?q = "appsrcsink_queue one_slot_full"
  have mode: "discard_mode ?q = DISCARD_OUTPUT_FRAMES" by code_simp
  have full: "length (queue (base ?q)) \<ge> unat (max_queue_size (base ?q))" by code_simp
  have sample: "pulled_sample (result_with_id 1) = Some (buffer0\<lparr>correspondence_meta := Some 1\<rparr>)"
    "correspondence_meta (buffer0\<lparr>correspondence_meta := Some 1\<rparr>) = Some 1"
    "(1 :: gint) \<noteq> - 1"
    "copy_ok (result_with_id 1)" "output_map_ok (result_with_id 1)"
    by (simp_all add: result_with_id_def)
  have pending: "user_data_queue ?q \<noteq> []" by code_simp
  have matched: "match_user_data 1 (user_data_queue ?q) = (Inr (hd (user_data_queue ?q)), [])"
    by code_simp
  have c: "sink_overflow_counter ?q = 0" by code_simp
  show ?thesis
    using discard_output_drops_when_full
            [where q = ?q and env = "result_with_id 1" and i = 1
               and b = "buffer0\<lparr>correspondence_meta := Some 1\<rparr>"
               and entry = "hd (user_data_queue ?q)" and rest = "[]"]
          mode full sample pending matched c
    by (auto simp add: FRAME_DROP_REPORT_RATE_def word_le_nat_alt)
qed

subsection \<open>The watchdog\<close>

lemma newAppsinkSampleCallback_flag:
  assumes "newAppsinkSampleCallback senv p = Some (r, p1)"
  shows "delivering_appsink_sample p1
    \<and> last_appsink_sample_time p1 = last_appsink_sample_time p
    \<and> calls p1 = calls p"
  using assms by (auto simp add: newAppsinkSampleCallback_def Let_def split: option.splits)

lemma forward_input_watchdog_fields:
  "calls (snd (forward_input env buffer b user_data p)) = calls p
   \<and> delivering_appsink_sample (snd (forward_input env buffer b user_data p))
       = delivering_appsink_sample p
   \<and> watchdog_counter (snd (forward_input env buffer b user_data p)) = watchdog_counter p
   \<and> last_appsink_sample_time (snd (forward_input env buffer b user_data p))
       = last_appsink_sample_time p"
  by (simp add: forward_input_def Let_def split: prod.splits sum.splits)

lemma pushInput_while_delivering:
  assumes "delivering_appsink_sample p"
  shows "calls (snd (pushInput env buffer user_data p)) = calls p
    \<and> delivering_appsink_sample (snd (pushInput env buffer user_data p))
    \<and> last_appsink_sample_time (snd (pushInput env buffer user_data p))
        = last_appsink_sample_time p"
  using assms
  by (simp add: pushInput_def forward_input_watchdog_fields split: option.splits)

lemma pushInputs_while_delivering:
  "delivering_appsink_sample p \<Longrightarrow>
   calls (snd (pushInputs ins p)) = calls p
   \<and> delivering_appsink_sample (snd (pushInputs ins p))
   \<and> last_appsink_sample_time (snd (pushInputs ins p)) = last_appsink_sample_time p"
proof (induction ins arbitrary: p)
  case Nil
  then show ?case by simp
next
  case (Cons x ins)
  obtain env buffer user_data where x: "x = (env, buffer, user_data)" by (cases x) auto
  let ?p1 = "snd (pushInput env buffer user_data p)"
  have s: "snd (pushInputs (x # ins) p) = snd (pushInputs ins ?p1)"
    using x by (simp split: prod.splits)
  have one: "calls ?p1 = calls p \<and> delivering_appsink_sample ?p1
      \<and> last_appsink_sample_time ?p1 = last_appsink_sample_time p"
    using Cons.prems by (rule pushInput_while_delivering)
  then have "calls (snd (pushInputs ins ?p1)) = calls ?p1
      \<and> delivering_appsink_sample (snd (pushInputs ins ?p1))
      \<and> last_appsink_sample_time (snd (pushInputs ins ?p1)) = last_appsink_sample_time ?p1"
    using Cons.IH [of ?p1] by simp
  then show ?case using s one by simp
qed

text \<open>
  C2. The watchdog is claimed to restart the pipeline after \<^verbatim>\<open>WATCHDOG_RESET_COUNT\<close>
  consecutive stalled \<^verbatim>\<open>pushInput\<close> calls at any point of a run, also after egress
  deliveries, and every delivery is claimed to update the last-delivery time and to clear
  the in-flight flag. \<^verbatim>\<open>newAppsinkSampleCallback\<close> sets \<^verbatim>\<open>delivering_appsink_sample_\<close> and
  returns before the two statements that would do so
  (\<open>newAppsinkSampleCallback_flag\<close>), and with the flag set no \<^verbatim>\<open>pushInput\<close> ever calls
  \<^verbatim>\<open>stop()\<close> or \<^verbatim>\<open>start()\<close> (\<open>pushInputs_while_delivering\<close>). The two runs: after one frame
  has been submitted and its result delivered, ten submissions three seconds apart all
  return true, no \<^verbatim>\<open>stop()\<close> or \<^verbatim>\<open>start()\<close> is called, the flag is still set and the
  last-delivery time is still that of the start; from the freshly started pipeline the
  same ten submissions do what the claim says: nine return true, the tenth returns false
  after one \<^verbatim>\<open>stop()\<close> and one \<^verbatim>\<open>start()\<close>, and the counter is 0.
\<close>

theorem watchdog_dead_after_delivery:
  "(let (rs, p) = pushInputs stalled_submissions one_delivered
    in (rs, calls p, watchdog_counter p, delivering_appsink_sample p,
        last_appsink_sample_time p, frame_counter p))
     = (replicate 10 (Inr True), [start_called], 0, True, 0, 11)
   \<and> (let (rs, p) = pushInputs stalled_submissions (started DISCARD_OUTPUT_FRAMES 5 3)
      in (rs, calls p, watchdog_counter p, delivering_appsink_sample p,
          last_appsink_sample_time p, frame_counter p))
     = (replicate 9 (Inr True) @ [Inr False],
        [start_called, watchdog_activated, stop_called, start_called], 0, False,
        30000000000, 9)"
  by code_simp

subsection \<open>Submission order is delivery order\<close>

text \<open>What a \<^verbatim>\<open>pushInput\<close> that returns true has done.\<close>

lemma pushData_base:
  "base (fst (snd (pushData env port buffer user_data q))) = base q"
  by (simp add: pushData_def report_input_def evict_oldest_def Let_def
      split: option.splits sum.splits prod.splits)

lemma pushData_True:
  assumes "pushData env port buffer user_data q = (Inr True, q1, port1)"
  shows "\<exists>b. ptr buffer = Some b
    \<and> user_data_queue q1 = user_data_queue (evict_oldest q) @ [(buffer_info_of b, user_data)]
    \<and> base q1 = base q
    \<and> port1 = port @ [b]"
proof -
  have q1: "q1 = fst (snd (pushData env port buffer user_data q))" using assms by simp
  obtain b where b: "ptr buffer = Some b"
    using assms by (cases "ptr buffer") (auto simp add: pushData_def)
  have adm: "\<not> ((discard_mode q = DISCARD_INPUT_FRAMES
              \<and> length (user_data_queue q) \<ge> unat (max_input_queue_size q))
             \<or> push_buffer_ret env \<noteq> GST_FLOW_OK)"
    using assms b by (auto simp add: pushData_def Let_def split: if_splits)
  have "user_data_queue q1 = user_data_queue (evict_oldest q) @ [(buffer_info_of b, user_data)]"
    unfolding q1 using b adm by (auto simp add: pushData_pending)
  moreover have "base q1 = base q" unfolding q1 by (rule pushData_base)
  moreover have "port1 = port @ [b]"
    using assms b adm
    by (auto simp add: pushData_def Let_def split: if_splits sum.splits prod.splits)
  ultimately show ?thesis using b by blast
qed

text \<open>What \<^verbatim>\<open>pushInput\<close> writes on the buffer before it hands it to \<^verbatim>\<open>pushData\<close>.\<close>

lemma stamp_input_fields:
  "GST_BUFFER_OFFSET (stamp_input time_now previous counter b) = counter
   \<and> GST_BUFFER_DTS (stamp_input time_now previous counter b) = GST_CLOCK_TIME_NONE
   \<and> GST_BUFFER_DURATION (stamp_input time_now previous counter b) = gst_frame_period
   \<and> GST_BUFFER_OFFSET_END (stamp_input time_now previous counter b) = GST_BUFFER_OFFSET_NONE
   \<and> correspondence_meta (stamp_input time_now previous counter b) = Some (ucast counter)
   \<and> memory (stamp_input time_now previous counter b) = memory b"
  by (simp add: stamp_input_def Let_def)

lemma forward_input_True:
  assumes "forward_input env buffer b user_data p = (Inr True, p1)"
  shows "\<exists>a. appsrc p1 = appsrc p @ [a]
    \<and> user_data_queue (appsrcsink_queue p1)
        = user_data_queue (evict_oldest (appsrcsink_queue p)) @ [(buffer_info_of a, user_data)]
    \<and> GST_BUFFER_OFFSET a = frame_counter p
    \<and> GST_BUFFER_DTS a = GST_CLOCK_TIME_NONE
    \<and> GST_BUFFER_DURATION a = gst_frame_period
    \<and> GST_BUFFER_OFFSET_END a = GST_BUFFER_OFFSET_NONE
    \<and> correspondence_meta a = Some (ucast (frame_counter p))
    \<and> memory a = memory b
    \<and> base (appsrcsink_queue p1) = base (appsrcsink_queue p)
    \<and> frame_counter p1 = frame_counter p + 1"
proof -
  let ?prev = "case time_previous p of None \<Rightarrow> gst_clock_time env - gst_frame_period | Some t \<Rightarrow> t"
  let ?b1 = "stamp_input (gst_clock_time env) ?prev (frame_counter p) b"
  obtain r q1 port1 where pd:
    "pushData (push env) (appsrc p) (buffer\<lparr>ptr := Some ?b1\<rparr>) user_data (appsrcsink_queue p)
       = (r, q1, port1)"
    by (metis prod_cases3)
  let ?p2 = "p\<lparr>time_previous := Some ?prev, appsrcsink_queue := q1, appsrc := port1\<rparr>"
  have fi: "forward_input env buffer b user_data p =
      (case r of
         Inl e \<Rightarrow> (Inl e, ?p2)
       | Inr result \<Rightarrow>
           (Inr result,
            if result then ?p2\<lparr>frame_counter := frame_counter ?p2 + 1,
                               time_previous := Some (gst_clock_time env)\<rparr>
            else ?p2))"
    using pd by (simp add: forward_input_def Let_def)
  have r: "r = Inr True"
  proof (cases r)
    case (Inl e)
    then show ?thesis using assms fi by simp
  next
    case (Inr result)
    then show ?thesis using assms fi by simp
  qed
  have "p1 = ?p2\<lparr>frame_counter := frame_counter ?p2 + 1,
                    time_previous := Some (gst_clock_time env)\<rparr>"
    using assms fi r by simp
  then have p1: "appsrcsink_queue p1 = q1"
    and fc: "frame_counter p1 = frame_counter p + 1"
    and port: "appsrc p1 = port1"
    by simp_all
  obtain b' where b': "ptr (buffer\<lparr>ptr := Some ?b1\<rparr>) = Some b'"
    and udq: "user_data_queue q1
        = user_data_queue (evict_oldest (appsrcsink_queue p)) @ [(buffer_info_of b', user_data)]"
    and bs: "base q1 = base (appsrcsink_queue p)"
    and p1': "port1 = appsrc p @ [b']"
    using pushData_True [OF pd [unfolded r]] by blast
  have eq: "b' = ?b1" using b' by simp
  have f: "GST_BUFFER_OFFSET b' = frame_counter p
    \<and> GST_BUFFER_DTS b' = GST_CLOCK_TIME_NONE
    \<and> GST_BUFFER_DURATION b' = gst_frame_period
    \<and> GST_BUFFER_OFFSET_END b' = GST_BUFFER_OFFSET_NONE
    \<and> correspondence_meta b' = Some (ucast (frame_counter p))
    \<and> memory b' = memory b"
    unfolding eq by (rule stamp_input_fields)
  have "appsrc p1 = appsrc p @ [b']
    \<and> user_data_queue (appsrcsink_queue p1)
        = user_data_queue (evict_oldest (appsrcsink_queue p)) @ [(buffer_info_of b', user_data)]
    \<and> GST_BUFFER_OFFSET b' = frame_counter p
    \<and> GST_BUFFER_DTS b' = GST_CLOCK_TIME_NONE
    \<and> GST_BUFFER_DURATION b' = gst_frame_period
    \<and> GST_BUFFER_OFFSET_END b' = GST_BUFFER_OFFSET_NONE
    \<and> correspondence_meta b' = Some (ucast (frame_counter p))
    \<and> memory b' = memory b
    \<and> base (appsrcsink_queue p1) = base (appsrcsink_queue p)
    \<and> frame_counter p1 = frame_counter p + 1"
    using udq bs p1 fc port p1' f by simp
  then show ?thesis by (rule exI)
qed

lemma stop_start_not_True:
  "fst (case stop p of (Inl e, p2) \<Rightarrow> (Inl e, p2)
    | (Inr u, p2) \<Rightarrow> (case start env p2 of (Inl e, p3) \<Rightarrow> (Inl e, p3)
                                        | (Inr u, p3) \<Rightarrow> (Inr False, p3))) \<noteq> Inr True"
  by (simp split: prod.splits sum.splits)

lemma pushInput_True:
  assumes "pushInput env buffer user_data p = (Inr True, p1)"
  shows "\<exists>a b. ptr buffer = Some b \<and> appsrc p1 = appsrc p @ [a]
    \<and> user_data_queue (appsrcsink_queue p1)
        = user_data_queue (evict_oldest (appsrcsink_queue p)) @ [(buffer_info_of a, user_data)]
    \<and> GST_BUFFER_OFFSET a = frame_counter p
    \<and> GST_BUFFER_DTS a = GST_CLOCK_TIME_NONE
    \<and> GST_BUFFER_DURATION a = gst_frame_period
    \<and> GST_BUFFER_OFFSET_END a = GST_BUFFER_OFFSET_NONE
    \<and> correspondence_meta a = Some (ucast (frame_counter p))
    \<and> memory a = memory b
    \<and> base (appsrcsink_queue p1) = base (appsrcsink_queue p)
    \<and> frame_counter p1 = frame_counter p + 1"
proof -
  have init: "pipeline p" using assms by (auto simp add: pushInput_def split: if_splits)
  obtain b where b: "ptr buffer = Some b"
    using assms init by (cases "ptr buffer") (auto simp add: pushInput_def)
  obtain p' where fw: "forward_input env buffer b user_data p' = (Inr True, p1)"
    and same: "appsrcsink_queue p' = appsrcsink_queue p" "frame_counter p' = frame_counter p"
      "appsrc p' = appsrc p"
  proof (cases "\<not> delivering_appsink_sample p
                \<and> clock_now env - last_appsink_sample_time p \<ge> WATCHDOG_TIMEOUT")
    case True
    let ?p1 = "p\<lparr>watchdog_counter := watchdog_counter p + 1\<rparr>"
    show ?thesis
    proof (cases "watchdog_counter ?p1 \<ge> WATCHDOG_RESET_COUNT")
      case restart: True
      have "pushInput env buffer user_data p =
        (case stop (?p1\<lparr>calls := calls ?p1 @ [watchdog_activated]\<rparr>) of (Inl e, p2) \<Rightarrow> (Inl e, p2)
         | (Inr u, p2) \<Rightarrow> (case start (restart env) p2 of (Inl e, p3) \<Rightarrow> (Inl e, p3)
                                        | (Inr u, p3) \<Rightarrow> (Inr False, p3)))"
        using init b True restart by (simp add: pushInput_def Let_def)
      then have "fst (pushInput env buffer user_data p) \<noteq> Inr True"
        by (simp only: stop_start_not_True not_False_eq_True)
      then have False using assms by simp
      then show ?thesis ..
    next
      case False
      then have "forward_input env buffer b user_data ?p1 = (Inr True, p1)"
        using assms init b True by (simp add: pushInput_def Let_def)
      then show ?thesis using that [of ?p1] by simp
    qed
  next
    case False
    show ?thesis
    proof (cases "watchdog_counter p > 0")
      case True
      then have "forward_input env buffer b user_data (p\<lparr>watchdog_counter := 0\<rparr>) = (Inr True, p1)"
        using assms init b False by (auto simp add: pushInput_def Let_def)
      then show ?thesis using that [of "p\<lparr>watchdog_counter := 0\<rparr>"] by simp
    next
      case nz: False
      then have "forward_input env buffer b user_data p = (Inr True, p1)"
        using assms init b False by (auto simp add: pushInput_def Let_def)
      then show ?thesis using that [of p] by simp
    qed
  qed
  show ?thesis using forward_input_True [OF fw] same b by simp
qed

lemma map_upt_Suc_shift: "map f [0..<Suc n] = f 0 # map (\<lambda>k. f (Suc k)) [0..<n]"
proof -
  have "[0..<Suc n] = 0 # map Suc [0..<n]"
    by (simp only: upt_conv_Cons [OF zero_less_Suc] map_Suc_upt)
  then show ?thesis by (simp add: comp_def)
qed

lemma evict_oldest_below_bound:
  "length (user_data_queue q) < MAX_USER_DATA_QUEUE_SIZE \<Longrightarrow>
   user_data_queue (evict_oldest q) = user_data_queue q"
  by (simp add: evict_oldest_queue)

lemma newSampleCallback_front:
  assumes pending: "user_data_queue q = entry # rest"
    and hit: "offset (fst entry) = scast i"
    and sample: "pulled_sample env = Some b" "correspondence_meta b = Some i" "i \<noteq> - 1"
    and copy: "copy_ok env" "output_map_ok env"
    and room: "length (queue (base q)) < unat (max_queue_size (base q))"
      "\<not> discard_everything (base q)"
  shows "\<exists>q1. newSampleCallback env q = Some (Inr GST_FLOW_OK, q1)
     \<and> user_data_queue q1 = rest
     \<and> queue (base q1) = queue (base q) @ [matched_pair b entry]
     \<and> max_queue_size (base q1) = max_queue_size (base q)
     \<and> discard_everything (base q1) = discard_everything (base q)"
proof -
  let ?q3 = "report_output (output_report env) (of_nat (length (memory b)))
          (q\<lparr>output_frame_rate_counter := Suc (output_frame_rate_counter q)\<rparr>)"
  have pub: "publish (schedule env) (matched_pair b entry) (?q3\<lparr>user_data_queue := rest\<rparr>) =
       Some ((?q3\<lparr>user_data_queue := rest\<rparr>)\<lparr>base := (base q)\<lparr>queue := queue (base q) @ [matched_pair b entry],
                queue_filled_condition := Suc (queue_filled_condition (base q))\<rparr>\<rparr>)"
    using room publish_room [of "?q3\<lparr>user_data_queue := rest\<rparr>" "schedule env" "matched_pair b entry"]
    by simp
  have "newSampleCallback env q =
      Some (Inr GST_FLOW_OK,
        (?q3\<lparr>user_data_queue := rest\<rparr>)\<lparr>base := (base q)\<lparr>queue := queue (base q) @ [matched_pair b entry],
                queue_filled_condition := Suc (queue_filled_condition (base q))\<rparr>\<rparr>)"
    using pending hit pub
    by (simp add: newSampleCallback_reaches_match [OF sample copy] match_and_publish_def
        matched_pair_def)
  then show ?thesis by simp
qed

lemma newAppsinkSampleCallback_front:
  assumes pending: "user_data_queue (appsrcsink_queue p) = entry # rest"
    and hit: "offset (fst entry) = scast i"
    and sample: "pulled_sample env = Some b" "correspondence_meta b = Some i" "i \<noteq> - 1"
    and copy: "copy_ok env" "output_map_ok env"
    and room: "length (queue (base (appsrcsink_queue p)))
                 < unat (max_queue_size (base (appsrcsink_queue p)))"
      "\<not> discard_everything (base (appsrcsink_queue p))"
  shows "\<exists>p1. newAppsinkSampleCallback env p = Some (Inr GST_FLOW_OK, p1)
     \<and> user_data_queue (appsrcsink_queue p1) = rest
     \<and> queue (base (appsrcsink_queue p1))
         = queue (base (appsrcsink_queue p)) @ [matched_pair b entry]
     \<and> max_queue_size (base (appsrcsink_queue p1)) = max_queue_size (base (appsrcsink_queue p))
     \<and> discard_everything (base (appsrcsink_queue p1))
         = discard_everything (base (appsrcsink_queue p))
     \<and> appsrc p1 = appsrc p \<and> frame_counter p1 = frame_counter p"
proof -
  obtain q1 where q1: "newSampleCallback env (appsrcsink_queue p) = Some (Inr GST_FLOW_OK, q1)"
     "user_data_queue q1 = rest"
     "queue (base q1) = queue (base (appsrcsink_queue p)) @ [matched_pair b entry]"
     "max_queue_size (base q1) = max_queue_size (base (appsrcsink_queue p))"
     "discard_everything (base q1) = discard_everything (base (appsrcsink_queue p))"
    using newSampleCallback_front [OF pending hit sample copy room] by blast
  have "newAppsinkSampleCallback env p
          = Some (Inr GST_FLOW_OK, p\<lparr>delivering_appsink_sample := True, appsrcsink_queue := q1\<rparr>)"
    using q1(1) by (simp add: newAppsinkSampleCallback_def Let_def)
  then show ?thesis using q1 by simp
qed

lemma popOutput_front:
  assumes "queue (base (appsrcsink_queue p)) = out # rest"
  shows "\<exists>p1. popOutput p = (Inr out, p1) \<and> queue (base (appsrcsink_queue p1)) = rest
     \<and> user_data_queue (appsrcsink_queue p1) = user_data_queue (appsrcsink_queue p)
     \<and> max_queue_size (base (appsrcsink_queue p1)) = max_queue_size (base (appsrcsink_queue p))
     \<and> discard_everything (base (appsrcsink_queue p1))
         = discard_everything (base (appsrcsink_queue p))
     \<and> appsrc p1 = appsrc p \<and> frame_counter p1 = frame_counter p"
  using assms by (simp add: popOutput_def popFront_def popFrontWithoutLocking_def)


text \<open>An admissible run, by induction over its calls.\<close>

lemma unat_Suc_le: "unat ((d :: 64 word) + 1) \<le> unat d + 1"
proof -
  have "unat (d + 1) = (unat d + unat (1 :: 64 word)) mod 2 ^ LENGTH(64)"
    by (rule unat_word_ariths(1))
  also have "\<dots> \<le> unat d + unat (1 :: 64 word)" by (rule mod_less_eq_dividend)
  finally show ?thesis by simp
qed

lemma word_less_2p31:
  assumes "unat (d :: 64 word) < 2 ^ 31"
  shows "d < 2 ^ 31"
proof -
  have "unat (2 ^ 31 :: 64 word) = 2 ^ 31" by simp
  then show ?thesis using assms by (simp only: word_less_nat_alt)
qed

lemma offsets_from_Cons:
  assumes "map (\<lambda>e. offset (fst e)) (e # pend) = map (\<lambda>k. d + of_nat k) [0..<length (e # pend)]"
  shows "offset (fst e) = (d :: guint64)
     \<and> map (\<lambda>e. offset (fst e)) pend = map (\<lambda>k. (d + 1) + of_nat k) [0..<length pend]"
proof -
  have "map (\<lambda>k. d + of_nat k) [0..<Suc (length pend)]
          = (d + of_nat 0) # map (\<lambda>k. d + of_nat (Suc k)) [0..<length pend]"
    by (rule map_upt_Suc_shift)
  also have "\<dots> = d # map (\<lambda>k. (d + 1) + of_nat k) [0..<length pend]"
    by (simp add: add.assoc)
  finally show ?thesis using assms by simp
qed

lemma offsets_snoc:
  assumes "map (\<lambda>e. offset (fst e)) pend = map (\<lambda>k. d + of_nat k) [0..<length pend]"
    "offset (fst x) = (d :: guint64) + of_nat (length pend)"
  shows "map (\<lambda>e. offset (fst e)) (pend @ [x])
           = map (\<lambda>k. d + of_nat k) [0..<length (pend @ [x])]"
  using assms by simp

lemma run_in_order:
  "user_data_queue (appsrcsink_queue p) = pend \<Longrightarrow>
   map (\<lambda>e. offset (fst e)) pend = map (\<lambda>k. d + of_nat k) [0..<length pend] \<Longrightarrow>
   frame_counter p = d + of_nat (length pend) \<Longrightarrow>
   queue (base (appsrcsink_queue p)) = outq \<Longrightarrow>
   \<not> discard_everything (base (appsrcsink_queue p)) \<Longrightarrow>
   admissible (unat (max_queue_size (base (appsrcsink_queue p)))) (length pend) (length outq) acts \<Longrightarrow>
   results_in_order d acts \<Longrightarrow>
   unat d + length pend + length (users_of acts) \<le> 2 ^ 31 \<Longrightarrow>
   pushed_of (fst (run acts p)) = replicate (length (users_of acts)) (Inr True) \<Longrightarrow>
   \<exists>A. appsrc (snd (run acts p)) = appsrc p @ A
     \<and> length A = length (users_of acts)
     \<and> map GST_BUFFER_OFFSET A
         = map (\<lambda>k. frame_counter p + of_nat k) [0..<length (users_of acts)]
     \<and> list_all (\<lambda>a. GST_BUFFER_DTS a = GST_CLOCK_TIME_NONE
                     \<and> GST_BUFFER_DURATION a = gst_frame_period
                     \<and> GST_BUFFER_OFFSET_END a = GST_BUFFER_OFFSET_NONE
                     \<and> correspondence_meta a = Some (ucast (GST_BUFFER_OFFSET a))) A
     \<and> map memory A = map memory (frames_of acts)
     \<and> delivered_of (fst (run acts p)) = replicate (length (results_of acts)) (Inr GST_FLOW_OK)
     \<and> popped_of (fst (run acts p))
         = map Inr (take (pops_of acts)
             (outq @ map2 matched_pair (results_of acts)
                       (pend @ zip (map buffer_info_of A) (users_of acts))))
     \<and> length (fst (run acts p)) = length acts"
proof (induction acts arbitrary: p pend outq d)
  case Nil
  have "appsrc (snd (run [] p)) = appsrc p @ []
     \<and> length ([] :: GstBuffer list) = length (users_of ([] :: 'a action list))
     \<and> map GST_BUFFER_OFFSET []
         = map (\<lambda>k. frame_counter p + of_nat k) [0..<length (users_of ([] :: 'a action list))]
     \<and> list_all (\<lambda>a. GST_BUFFER_DTS a = GST_CLOCK_TIME_NONE
                     \<and> GST_BUFFER_DURATION a = gst_frame_period
                     \<and> GST_BUFFER_OFFSET_END a = GST_BUFFER_OFFSET_NONE
                     \<and> correspondence_meta a = Some (ucast (GST_BUFFER_OFFSET a))) []
     \<and> map memory [] = map memory (frames_of ([] :: 'a action list))
     \<and> delivered_of (fst (run [] p))
         = replicate (length (results_of ([] :: 'a action list))) (Inr GST_FLOW_OK)
     \<and> popped_of (fst (run [] p))
         = map Inr (take (pops_of ([] :: 'a action list))
             (outq @ map2 matched_pair (results_of ([] :: 'a action list))
                       (pend @ zip (map buffer_info_of []) (users_of ([] :: 'a action list)))))
     \<and> length (fst (run [] p)) = length ([] :: 'a action list)"
    by simp
  then show ?case by (rule exI)
next
  case (Cons act acts)
  show ?case
  proof (cases act)
    case (Push env buffer u)
    obtain r p1 where one: "pushInput env buffer u p = (r, p1)"
      by (cases "pushInput env buffer u p") auto
    obtain rs p2 where more: "run acts p1 = (rs, p2)" by (cases "run acts p1") auto
    have eq: "run (act # acts) p = (Pushed r # rs, p2)" using Push one more by simp
    have "pushed_of (Pushed r # rs) = replicate (length (users_of (act # acts))) (Inr True)"
      using Cons.prems(9) eq by simp
    then have r: "r = Inr True"
      and rs: "pushed_of (fst (run acts p1)) = replicate (length (users_of acts)) (Inr True)"
      using Push more by simp_all
    obtain a b where b: "ptr buffer = Some b" and port: "appsrc p1 = appsrc p @ [a]"
      and udq: "user_data_queue (appsrcsink_queue p1)
        = user_data_queue (evict_oldest (appsrcsink_queue p)) @ [(buffer_info_of a, u)]"
      and off: "GST_BUFFER_OFFSET a = frame_counter p"
      and st: "GST_BUFFER_DTS a = GST_CLOCK_TIME_NONE" "GST_BUFFER_DURATION a = gst_frame_period"
        "GST_BUFFER_OFFSET_END a = GST_BUFFER_OFFSET_NONE"
        "correspondence_meta a = Some (ucast (frame_counter p))"
      and mem: "memory a = memory b"
      and bs: "base (appsrcsink_queue p1) = base (appsrcsink_queue p)"
      and fc: "frame_counter p1 = frame_counter p + 1"
      using pushInput_True [OF one [unfolded r]] by blast
    have below: "length (user_data_queue (appsrcsink_queue p)) < MAX_USER_DATA_QUEUE_SIZE"
      using Cons.prems(1,6) Push by simp
    let ?x = "(buffer_info_of a, u)"
    have p1: "user_data_queue (appsrcsink_queue p1) = pend @ [?x]"
      using udq below Cons.prems(1) by (simp add: evict_oldest_below_bound)
    have "offset (fst ?x) = d + of_nat (length pend)"
      using off Cons.prems(3) by (simp add: buffer_info_of_def)
    then have p2: "map (\<lambda>e. offset (fst e)) (pend @ [?x])
           = map (\<lambda>k. d + of_nat k) [0..<length (pend @ [?x])]"
      using Cons.prems(2) by (rule offsets_snoc [rotated])
    have p3: "frame_counter p1 = d + of_nat (length (pend @ [?x]))"
      using fc Cons.prems(3) by (simp add: add.assoc)
    have p4: "queue (base (appsrcsink_queue p1)) = outq" using bs Cons.prems(4) by simp
    have p5: "\<not> discard_everything (base (appsrcsink_queue p1))" using bs Cons.prems(5) by simp
    have p6: "admissible (unat (max_queue_size (base (appsrcsink_queue p1))))
                (length (pend @ [?x])) (length outq) acts"
      using Cons.prems(6) Push bs by simp
    have p7: "results_in_order d acts" using Cons.prems(7) Push by simp
    have p8: "unat d + length (pend @ [?x]) + length (users_of acts) \<le> 2 ^ 31"
      using Cons.prems(8) Push by simp
    obtain A where A: "appsrc (snd (run acts p1)) = appsrc p1 @ A"
      "length A = length (users_of acts)"
      "map GST_BUFFER_OFFSET A
         = map (\<lambda>k. frame_counter p1 + of_nat k) [0..<length (users_of acts)]"
      "list_all (\<lambda>a. GST_BUFFER_DTS a = GST_CLOCK_TIME_NONE
                     \<and> GST_BUFFER_DURATION a = gst_frame_period
                     \<and> GST_BUFFER_OFFSET_END a = GST_BUFFER_OFFSET_NONE
                     \<and> correspondence_meta a = Some (ucast (GST_BUFFER_OFFSET a))) A"
      "map memory A = map memory (frames_of acts)"
      "delivered_of (fst (run acts p1)) = replicate (length (results_of acts)) (Inr GST_FLOW_OK)"
      "popped_of (fst (run acts p1))
         = map Inr (take (pops_of acts)
             (outq @ map2 matched_pair (results_of acts)
                       ((pend @ [?x]) @ zip (map buffer_info_of A) (users_of acts))))"
      "length (fst (run acts p1)) = length acts"
      using Cons.IH [OF p1 p2 p3 p4 p5 p6 p7 p8 rs] by blast
    let ?A = "a # A"
    have c1: "appsrc (snd (run (act # acts) p)) = appsrc p @ ?A"
      using eq more A(1) port by simp
    have c2: "length ?A = length (users_of (act # acts))" using A(2) Push by simp
    have "map (\<lambda>k. frame_counter p + of_nat k) [0..<Suc (length (users_of acts))]
          = (frame_counter p + of_nat 0)
            # map (\<lambda>k. frame_counter p + of_nat (Suc k)) [0..<length (users_of acts)]"
      by (rule map_upt_Suc_shift)
    also have "\<dots> = frame_counter p
            # map (\<lambda>k. frame_counter p1 + of_nat k) [0..<length (users_of acts)]"
      using fc by (simp add: add.assoc)
    finally have c3: "map GST_BUFFER_OFFSET ?A
         = map (\<lambda>k. frame_counter p + of_nat k) [0..<length (users_of (act # acts))]"
      using A(3) off Push by simp
    have c4: "list_all (\<lambda>a. GST_BUFFER_DTS a = GST_CLOCK_TIME_NONE
                     \<and> GST_BUFFER_DURATION a = gst_frame_period
                     \<and> GST_BUFFER_OFFSET_END a = GST_BUFFER_OFFSET_NONE
                     \<and> correspondence_meta a = Some (ucast (GST_BUFFER_OFFSET a))) ?A"
      using A(4) st off by simp
    have c5: "map memory ?A = map memory (frames_of (act # acts))"
      using A(5) mem Push b by simp
    have c6: "delivered_of (fst (run (act # acts) p))
                = replicate (length (results_of (act # acts))) (Inr GST_FLOW_OK)"
      using eq more A(6) Push by simp
    have c7: "popped_of (fst (run (act # acts) p))
         = map Inr (take (pops_of (act # acts))
             (outq @ map2 matched_pair (results_of (act # acts))
                       (pend @ zip (map buffer_info_of ?A) (users_of (act # acts)))))"
      using eq more A(7) Push by simp
    have c8: "length (fst (run (act # acts) p)) = length (act # acts)"
      using eq more A(8) by simp
    have "appsrc (snd (run (act # acts) p)) = appsrc p @ ?A
     \<and> length ?A = length (users_of (act # acts))
     \<and> map GST_BUFFER_OFFSET ?A
         = map (\<lambda>k. frame_counter p + of_nat k) [0..<length (users_of (act # acts))]
     \<and> list_all (\<lambda>a. GST_BUFFER_DTS a = GST_CLOCK_TIME_NONE
                     \<and> GST_BUFFER_DURATION a = gst_frame_period
                     \<and> GST_BUFFER_OFFSET_END a = GST_BUFFER_OFFSET_NONE
                     \<and> correspondence_meta a = Some (ucast (GST_BUFFER_OFFSET a))) ?A
     \<and> map memory ?A = map memory (frames_of (act # acts))
     \<and> delivered_of (fst (run (act # acts) p))
         = replicate (length (results_of (act # acts))) (Inr GST_FLOW_OK)
     \<and> popped_of (fst (run (act # acts) p))
         = map Inr (take (pops_of (act # acts))
             (outq @ map2 matched_pair (results_of (act # acts))
                       (pend @ zip (map buffer_info_of ?A) (users_of (act # acts)))))
     \<and> length (fst (run (act # acts) p)) = length (act # acts)"
      using c1 c2 c3 c4 c5 c6 c7 c8 by (intro conjI)
    then show ?thesis by (rule exI)
  next
    case (Deliver senv)
    have adm: "0 < length pend"
      "length outq < unat (max_queue_size (base (appsrcsink_queue p)))"
      "admissible (unat (max_queue_size (base (appsrcsink_queue p))))
         (length pend - 1) (Suc (length outq)) acts"
      using Cons.prems(6) Deliver by simp_all
    obtain e pend' where pend: "pend = e # pend'" using adm(1) by (cases pend) auto
    obtain b where sample: "pulled_sample senv = Some b"
      "correspondence_meta b = Some (ucast d)"
      and copy: "copy_ok senv" "output_map_ok senv"
      and rio: "results_in_order (d + 1) acts"
      using Cons.prems(7) Deliver by (cases "pulled_sample senv") auto
    have offs: "offset (fst e) = d"
      "map (\<lambda>e. offset (fst e)) pend' = map (\<lambda>k. (d + 1) + of_nat k) [0..<length pend']"
      using offsets_from_Cons [of e pend' d] Cons.prems(2) pend by simp_all
    have "unat d < 2 ^ 31" using Cons.prems(8) pend by simp
    then have "d < 2 ^ 31" by (rule word_less_2p31)
    then have id: "(scast (ucast d :: gint) :: guint64) = d" "(ucast d :: gint) \<noteq> - 1"
      using ucast_small [of d] by simp_all
    have hit: "offset (fst e) = scast (ucast d :: gint)" using offs(1) id(1) by simp
    have pending: "user_data_queue (appsrcsink_queue p) = e # pend'"
      using Cons.prems(1) pend by simp
    have room: "length (queue (base (appsrcsink_queue p)))
                 < unat (max_queue_size (base (appsrcsink_queue p)))"
      using adm(2) Cons.prems(4) by simp
    obtain p1 where one: "newAppsinkSampleCallback senv p = Some (Inr GST_FLOW_OK, p1)"
      and q1: "user_data_queue (appsrcsink_queue p1) = pend'"
      and q4: "queue (base (appsrcsink_queue p1))
         = queue (base (appsrcsink_queue p)) @ [matched_pair b e]"
      and cap: "max_queue_size (base (appsrcsink_queue p1))
                  = max_queue_size (base (appsrcsink_queue p))"
      and dr: "discard_everything (base (appsrcsink_queue p1))
         = discard_everything (base (appsrcsink_queue p))"
      and port: "appsrc p1 = appsrc p" and fc: "frame_counter p1 = frame_counter p"
      using newAppsinkSampleCallback_front
              [OF pending hit sample id(2) copy room Cons.prems(5)]
      by blast
    obtain rs p2 where more: "run acts p1 = (rs, p2)" by (cases "run acts p1") auto
    have eq: "run (act # acts) p = (Delivered (Inr GST_FLOW_OK) # rs, p2)"
      using Deliver one more by simp
    have p3: "frame_counter p1 = (d + 1) + of_nat (length pend')"
      using fc Cons.prems(3) pend by (simp add: add.assoc)
    have p4: "queue (base (appsrcsink_queue p1)) = outq @ [matched_pair b e]"
      using q4 Cons.prems(4) by simp
    have p5: "\<not> discard_everything (base (appsrcsink_queue p1))" using dr Cons.prems(5) by simp
    have p6: "admissible (unat (max_queue_size (base (appsrcsink_queue p1))))
                (length pend') (length (outq @ [matched_pair b e])) acts"
      using adm(3) pend cap by simp
    have "unat (d + 1) \<le> unat d + 1" by (rule unat_Suc_le)
    then have p8: "unat (d + 1) + length pend' + length (users_of acts) \<le> 2 ^ 31"
      using Cons.prems(8) pend Deliver by simp
    have rs: "pushed_of (fst (run acts p1)) = replicate (length (users_of acts)) (Inr True)"
      using Cons.prems(9) eq more Deliver by simp
    obtain A where A: "appsrc (snd (run acts p1)) = appsrc p1 @ A"
      "length A = length (users_of acts)"
      "map GST_BUFFER_OFFSET A
         = map (\<lambda>k. frame_counter p1 + of_nat k) [0..<length (users_of acts)]"
      "list_all (\<lambda>a. GST_BUFFER_DTS a = GST_CLOCK_TIME_NONE
                     \<and> GST_BUFFER_DURATION a = gst_frame_period
                     \<and> GST_BUFFER_OFFSET_END a = GST_BUFFER_OFFSET_NONE
                     \<and> correspondence_meta a = Some (ucast (GST_BUFFER_OFFSET a))) A"
      "map memory A = map memory (frames_of acts)"
      "delivered_of (fst (run acts p1)) = replicate (length (results_of acts)) (Inr GST_FLOW_OK)"
      "popped_of (fst (run acts p1))
         = map Inr (take (pops_of acts)
             ((outq @ [matched_pair b e]) @ map2 matched_pair (results_of acts)
                       (pend' @ zip (map buffer_info_of A) (users_of acts))))"
      "length (fst (run acts p1)) = length acts"
      using Cons.IH [OF q1 offs(2) p3 p4 p5 p6 rio p8 rs] by blast
    have c1: "appsrc (snd (run (act # acts) p)) = appsrc p @ A"
      using eq more A(1) port by simp
    have c2: "length A = length (users_of (act # acts))" using A(2) Deliver by simp
    have c3: "map GST_BUFFER_OFFSET A
         = map (\<lambda>k. frame_counter p + of_nat k) [0..<length (users_of (act # acts))]"
      using A(3) fc Deliver by simp
    have c5: "map memory A = map memory (frames_of (act # acts))" using A(5) Deliver by simp
    have c6: "delivered_of (fst (run (act # acts) p))
                = replicate (length (results_of (act # acts))) (Inr GST_FLOW_OK)"
      using eq more A(6) Deliver sample by simp
    have c7: "popped_of (fst (run (act # acts) p))
         = map Inr (take (pops_of (act # acts))
             (outq @ map2 matched_pair (results_of (act # acts))
                       (pend @ zip (map buffer_info_of A) (users_of (act # acts)))))"
      using eq more A(7) Deliver sample pend by simp
    have c8: "length (fst (run (act # acts) p)) = length (act # acts)"
      using eq more A(8) by simp
    have "appsrc (snd (run (act # acts) p)) = appsrc p @ A
     \<and> length A = length (users_of (act # acts))
     \<and> map GST_BUFFER_OFFSET A
         = map (\<lambda>k. frame_counter p + of_nat k) [0..<length (users_of (act # acts))]
     \<and> list_all (\<lambda>a. GST_BUFFER_DTS a = GST_CLOCK_TIME_NONE
                     \<and> GST_BUFFER_DURATION a = gst_frame_period
                     \<and> GST_BUFFER_OFFSET_END a = GST_BUFFER_OFFSET_NONE
                     \<and> correspondence_meta a = Some (ucast (GST_BUFFER_OFFSET a))) A
     \<and> map memory A = map memory (frames_of (act # acts))
     \<and> delivered_of (fst (run (act # acts) p))
         = replicate (length (results_of (act # acts))) (Inr GST_FLOW_OK)
     \<and> popped_of (fst (run (act # acts) p))
         = map Inr (take (pops_of (act # acts))
             (outq @ map2 matched_pair (results_of (act # acts))
                       (pend @ zip (map buffer_info_of A) (users_of (act # acts)))))
     \<and> length (fst (run (act # acts) p)) = length (act # acts)"
      using c1 c2 c3 A(4) c5 c6 c7 c8 by (intro conjI)
    then show ?thesis by (rule exI)
  next
    case Pop
    have adm: "0 < length outq"
      "admissible (unat (max_queue_size (base (appsrcsink_queue p))))
         (length pend) (length outq - 1) acts"
      using Cons.prems(6) Pop by simp_all
    obtain x outq' where outq: "outq = x # outq'" using adm(1) by (cases outq) auto
    have front: "queue (base (appsrcsink_queue p)) = x # outq'"
      using Cons.prems(4) outq by simp
    obtain p1 where one: "popOutput p = (Inr x, p1)"
      and q4: "queue (base (appsrcsink_queue p1)) = outq'"
      and q1: "user_data_queue (appsrcsink_queue p1) = user_data_queue (appsrcsink_queue p)"
      and cap: "max_queue_size (base (appsrcsink_queue p1))
                  = max_queue_size (base (appsrcsink_queue p))"
      and dr: "discard_everything (base (appsrcsink_queue p1))
         = discard_everything (base (appsrcsink_queue p))"
      and port: "appsrc p1 = appsrc p" and fc: "frame_counter p1 = frame_counter p"
      using popOutput_front [OF front] by blast
    obtain rs p2 where more: "run acts p1 = (rs, p2)" by (cases "run acts p1") auto
    have eq: "run (act # acts) p = (Popped (Inr x) # rs, p2)"
      using Pop one more by simp
    have p1: "user_data_queue (appsrcsink_queue p1) = pend" using q1 Cons.prems(1) by simp
    have p3: "frame_counter p1 = d + of_nat (length pend)" using fc Cons.prems(3) by simp
    have p5: "\<not> discard_everything (base (appsrcsink_queue p1))" using dr Cons.prems(5) by simp
    have p6: "admissible (unat (max_queue_size (base (appsrcsink_queue p1))))
                (length pend) (length outq') acts"
      using adm(2) outq cap by simp
    have p7: "results_in_order d acts" using Cons.prems(7) Pop by simp
    have p8: "unat d + length pend + length (users_of acts) \<le> 2 ^ 31"
      using Cons.prems(8) Pop by simp
    have rs: "pushed_of (fst (run acts p1)) = replicate (length (users_of acts)) (Inr True)"
      using Cons.prems(9) eq more Pop by simp
    obtain A where A: "appsrc (snd (run acts p1)) = appsrc p1 @ A"
      "length A = length (users_of acts)"
      "map GST_BUFFER_OFFSET A
         = map (\<lambda>k. frame_counter p1 + of_nat k) [0..<length (users_of acts)]"
      "list_all (\<lambda>a. GST_BUFFER_DTS a = GST_CLOCK_TIME_NONE
                     \<and> GST_BUFFER_DURATION a = gst_frame_period
                     \<and> GST_BUFFER_OFFSET_END a = GST_BUFFER_OFFSET_NONE
                     \<and> correspondence_meta a = Some (ucast (GST_BUFFER_OFFSET a))) A"
      "map memory A = map memory (frames_of acts)"
      "delivered_of (fst (run acts p1)) = replicate (length (results_of acts)) (Inr GST_FLOW_OK)"
      "popped_of (fst (run acts p1))
         = map Inr (take (pops_of acts)
             (outq' @ map2 matched_pair (results_of acts)
                       (pend @ zip (map buffer_info_of A) (users_of acts))))"
      "length (fst (run acts p1)) = length acts"
      using Cons.IH [OF p1 Cons.prems(2) p3 q4 p5 p6 p7 p8 rs] by blast
    have c1: "appsrc (snd (run (act # acts) p)) = appsrc p @ A"
      using eq more A(1) port by simp
    have c2: "length A = length (users_of (act # acts))" using A(2) Pop by simp
    have c3: "map GST_BUFFER_OFFSET A
         = map (\<lambda>k. frame_counter p + of_nat k) [0..<length (users_of (act # acts))]"
      using A(3) fc Pop by simp
    have c5: "map memory A = map memory (frames_of (act # acts))" using A(5) Pop by simp
    have c6: "delivered_of (fst (run (act # acts) p))
                = replicate (length (results_of (act # acts))) (Inr GST_FLOW_OK)"
      using eq more A(6) Pop by simp
    have c7: "popped_of (fst (run (act # acts) p))
         = map Inr (take (pops_of (act # acts))
             (outq @ map2 matched_pair (results_of (act # acts))
                       (pend @ zip (map buffer_info_of A) (users_of (act # acts)))))"
      using eq more A(7) Pop outq by simp
    have c8: "length (fst (run (act # acts) p)) = length (act # acts)"
      using eq more A(8) by simp
    have "appsrc (snd (run (act # acts) p)) = appsrc p @ A
     \<and> length A = length (users_of (act # acts))
     \<and> map GST_BUFFER_OFFSET A
         = map (\<lambda>k. frame_counter p + of_nat k) [0..<length (users_of (act # acts))]
     \<and> list_all (\<lambda>a. GST_BUFFER_DTS a = GST_CLOCK_TIME_NONE
                     \<and> GST_BUFFER_DURATION a = gst_frame_period
                     \<and> GST_BUFFER_OFFSET_END a = GST_BUFFER_OFFSET_NONE
                     \<and> correspondence_meta a = Some (ucast (GST_BUFFER_OFFSET a))) A
     \<and> map memory A = map memory (frames_of (act # acts))
     \<and> delivered_of (fst (run (act # acts) p))
         = replicate (length (results_of (act # acts))) (Inr GST_FLOW_OK)
     \<and> popped_of (fst (run (act # acts) p))
         = map Inr (take (pops_of (act # acts))
             (outq @ map2 matched_pair (results_of (act # acts))
                       (pend @ zip (map buffer_info_of A) (users_of (act # acts)))))
     \<and> length (fst (run (act # acts) p)) = length (act # acts)"
      using c1 c2 c3 A(4) c5 c6 c7 c8 by (intro conjI)
    then show ?thesis by (rule exI)
  qed
qed

text \<open>The order of the ids is kept by every call.\<close>

lemma map_filter_Cons:
  "List.map_filter f (x # xs) =
     (case f x of None \<Rightarrow> List.map_filter f xs | Some y \<Rightarrow> y # List.map_filter f xs)"
  by (simp add: List.map_filter_def split: option.splits)

lemma map_filter_snoc:
  "List.map_filter f (xs @ [x]) =
     List.map_filter f xs @ (case f x of None \<Rightarrow> [] | Some y \<Rightarrow> [y])"
  by (simp add: List.map_filter_def split: option.splits)

lemma map_filter_suffix: "\<exists>j. List.map_filter f (drop k xs) = drop j (List.map_filter f xs)"
proof (induction xs arbitrary: k)
  case Nil
  have "List.map_filter f (drop k []) = drop 0 (List.map_filter f [])" by simp
  then show ?case by (rule exI)
next
  case (Cons x xs)
  show ?case
  proof (cases k)
    case 0
    then have "List.map_filter f (drop k (x # xs)) = drop 0 (List.map_filter f (x # xs))"
      by simp
    then show ?thesis by (rule exI)
  next
    case (Suc k')
    obtain j where j: "List.map_filter f (drop k' xs) = drop j (List.map_filter f xs)"
      using Cons.IH by blast
    show ?thesis
    proof (cases "f x")
      case None
      then have "List.map_filter f (drop k (x # xs)) = drop j (List.map_filter f (x # xs))"
        using j Suc by (simp add: map_filter_Cons)
      then show ?thesis by (rule exI)
    next
      case (Some y)
      then have "List.map_filter f (drop k (x # xs)) = drop (Suc j) (List.map_filter f (x # xs))"
        using j Suc by (simp add: map_filter_Cons)
      then show ?thesis by (rule exI)
    qed
  qed
qed

text \<open>The three ways a call changes the two queues, as lists of ids.\<close>

lemma sorted_after_push:
  assumes "sorted (out @ pend @ [c :: guint64])" "c \<le> c'"
  shows "sorted (drop i out @ drop j pend @ [c'])"
    and "sorted (drop i out @ (drop j pend @ [c]) @ [c'])"
  using assms by (auto simp add: sorted_append dest!: in_set_dropD)

lemma sorted_after_delivery:
  assumes "sorted (out @ pend @ [c :: guint64])"
  shows "sorted (drop i out @ drop j pend @ [c])"
    and "x \<in> set (take j pend) \<Longrightarrow> sorted ((drop i out @ [x]) @ drop j pend @ [c])"
proof -
  show "sorted (drop i out @ drop j pend @ [c])"
    using assms by (auto simp add: sorted_append dest!: in_set_dropD)
  assume x: "x \<in> set (take j pend)"
  have "sorted (take j pend @ drop j pend)" using assms by (simp add: sorted_append)
  then have "\<forall>y \<in> set (drop j pend). x \<le> y" using x by (simp only: sorted_append) blast
  moreover have "x \<in> set pend" using x by (rule in_set_takeD)
  ultimately show "sorted ((drop i out @ [x]) @ drop j pend @ [c])"
    using assms by (auto simp add: sorted_append dest!: in_set_dropD)
qed

lemma word_le_Suc:
  assumes "unat (c :: guint64) + 1 < 2 ^ 64"
  shows "c \<le> c + 1"
proof -
  have "unat c + unat (1 :: guint64) < 2 ^ LENGTH(64)" using assms by simp
  then have "unat (c + 1) = unat c + unat (1 :: guint64)" by (simp only: unat_add_lem)
  then show ?thesis by (simp add: word_le_nat_alt)
qed

text \<open>What each call does to the queues and the counter, whatever the outside does.\<close>

lemma forward_input_effect:
  assumes "forward_input env buffer b user_data p = (r, p1)"
  shows "base (appsrcsink_queue p1) = base (appsrcsink_queue p)
    \<and> (\<exists>k. user_data_queue (appsrcsink_queue p1) = drop k (user_data_queue (appsrcsink_queue p))
          \<or> (\<exists>e. user_data_queue (appsrcsink_queue p1)
                     = drop k (user_data_queue (appsrcsink_queue p)) @ [(e, user_data)]
                \<and> offset e = frame_counter p))
    \<and> (frame_counter p1 = frame_counter p \<or> frame_counter p1 = frame_counter p + 1)"
proof -
  let ?prev = "case time_previous p of None \<Rightarrow> gst_clock_time env - gst_frame_period | Some t \<Rightarrow> t"
  let ?b1 = "stamp_input (gst_clock_time env) ?prev (frame_counter p) b"
  let ?pd = "pushData (push env) (appsrc p) (buffer\<lparr>ptr := Some ?b1\<rparr>) user_data
               (appsrcsink_queue p)"
  have p1: "p1 = snd (forward_input env buffer b user_data p)" using assms by simp
  have q: "appsrcsink_queue p1 = fst (snd ?pd)" unfolding p1 by (rule forward_input_queue)
  have a: "base (appsrcsink_queue p1) = base (appsrcsink_queue p)"
    unfolding q by (rule pushData_base)
  have udq: "user_data_queue (appsrcsink_queue p1) = user_data_queue (appsrcsink_queue p)
      \<or> user_data_queue (appsrcsink_queue p1)
          = user_data_queue (evict_oldest (appsrcsink_queue p)) @ [(buffer_info_of ?b1, user_data)]"
    unfolding q by (simp add: pushData_pending)
  have ev: "user_data_queue (evict_oldest (appsrcsink_queue p))
              = drop (if length (user_data_queue (appsrcsink_queue p)) \<ge> MAX_USER_DATA_QUEUE_SIZE
                      then 1 else 0) (user_data_queue (appsrcsink_queue p))"
    by (simp add: evict_oldest_queue drop_Suc)
  have off: "offset (buffer_info_of ?b1) = frame_counter p"
    by (simp add: buffer_info_of_def stamp_input_fields)
  have b: "\<exists>k. user_data_queue (appsrcsink_queue p1) = drop k (user_data_queue (appsrcsink_queue p))
          \<or> (\<exists>e. user_data_queue (appsrcsink_queue p1)
                     = drop k (user_data_queue (appsrcsink_queue p)) @ [(e, user_data)]
                \<and> offset e = frame_counter p)"
  proof (rule disjE [OF udq])
    assume "user_data_queue (appsrcsink_queue p1) = user_data_queue (appsrcsink_queue p)"
    then have "user_data_queue (appsrcsink_queue p1)
                 = drop 0 (user_data_queue (appsrcsink_queue p))" by simp
    then show ?thesis by blast
  next
    assume "user_data_queue (appsrcsink_queue p1)
          = user_data_queue (evict_oldest (appsrcsink_queue p)) @ [(buffer_info_of ?b1, user_data)]"
    then show ?thesis using ev off by metis
  qed
  have c: "frame_counter p1 = frame_counter p \<or> frame_counter p1 = frame_counter p + 1"
    unfolding p1 by (simp add: forward_input_def Let_def split: prod.splits sum.splits)
  show ?thesis using a b c by blast
qed

lemma pushInput_effect:
  assumes "pushInput env buffer user_data p = (r, p1)"
  shows "(\<exists>i. queue (base (appsrcsink_queue p1)) = drop i (queue (base (appsrcsink_queue p))))
    \<and> (\<exists>k. user_data_queue (appsrcsink_queue p1) = drop k (user_data_queue (appsrcsink_queue p))
          \<or> (\<exists>e. user_data_queue (appsrcsink_queue p1)
                     = drop k (user_data_queue (appsrcsink_queue p)) @ [(e, user_data)]
                \<and> offset e = frame_counter p))
    \<and> (frame_counter p1 = frame_counter p \<or> frame_counter p1 = frame_counter p + 1)"
proof -
  have unchanged: ?thesis if "p1 = p"
  proof -
    have "queue (base (appsrcsink_queue p1)) = drop 0 (queue (base (appsrcsink_queue p)))"
      "user_data_queue (appsrcsink_queue p1) = drop 0 (user_data_queue (appsrcsink_queue p))"
      "frame_counter p1 = frame_counter p"
      using that by simp_all
    then show ?thesis by blast
  qed
  have forwarded: ?thesis
    if fw: "forward_input env buffer b user_data p' = (r, p1)"
      and same: "appsrcsink_queue p' = appsrcsink_queue p" "frame_counter p' = frame_counter p"
    for b p'
  proof -
    have "queue (base (appsrcsink_queue p1)) = drop 0 (queue (base (appsrcsink_queue p)))"
      using forward_input_effect [OF fw] same by simp
    then have "\<exists>i. queue (base (appsrcsink_queue p1)) = drop i (queue (base (appsrcsink_queue p)))"
      by (rule exI)
    then show ?thesis using forward_input_effect [OF fw] same by simp
  qed
  show ?thesis
  proof (cases "pipeline p")
    case False
    then have "p1 = p" using assms by (simp add: pushInput_def)
    then show ?thesis by (rule unchanged)
  next
    case init: True
    show ?thesis
    proof (cases "ptr buffer")
      case None
      then have "p1 = p" using assms init by (simp add: pushInput_def)
      then show ?thesis by (rule unchanged)
    next
      case (Some b)
      show ?thesis
      proof (cases "\<not> delivering_appsink_sample p
                \<and> clock_now env - last_appsink_sample_time p \<ge> WATCHDOG_TIMEOUT")
        case True
        let ?p1 = "p\<lparr>watchdog_counter := watchdog_counter p + 1\<rparr>"
        show ?thesis
        proof (cases "watchdog_counter ?p1 \<ge> WATCHDOG_RESET_COUNT")
          case restart: True
          let ?pw = "?p1\<lparr>calls := calls ?p1 @ [watchdog_activated]\<rparr>"
          let ?p2 = "?pw\<lparr>calls := calls ?pw @ [stop_called],
              appsrcsink_queue :=
                (appsrcsink_queue ?pw)\<lparr>base := setDiscardEverything True (base (appsrcsink_queue ?pw))\<rparr>,
              terminate := True, message_thread := False\<rparr>"
          have st: "stop ?pw = (Inr (), ?p2)" using init by (simp add: stop_fields)
          have "pipeline ?p2" "\<not> message_thread ?p2" using init by simp_all
          then have "appsrcsink_queue (snd (start (restart env) ?p2)) =
              (appsrcsink_queue ?p2)\<lparr>base := setDiscardEverything False (clear (base (appsrcsink_queue ?p2)))\<rparr>
            \<and> frame_counter (snd (start (restart env) ?p2)) = frame_counter ?p2"
            by (simp add: start_after_stop)
          then have s3: "queue (base (appsrcsink_queue (snd (start (restart env) ?p2)))) = []"
            "user_data_queue (appsrcsink_queue (snd (start (restart env) ?p2)))
               = user_data_queue (appsrcsink_queue p)"
            "frame_counter (snd (start (restart env) ?p2)) = frame_counter p"
            by (simp_all add: setDiscardEverything_def clear_def)
          have "pushInput env buffer user_data p =
            (case start (restart env) ?p2 of (Inl e, p3) \<Rightarrow> (Inl e, p3)
                                        | (Inr u, p3) \<Rightarrow> (Inr False, p3))"
            using init Some True restart st by (simp add: pushInput_def Let_def)
          then have "p1 = snd (start (restart env) ?p2)"
            using assms by (simp split: prod.splits sum.splits)
          then have "queue (base (appsrcsink_queue p1))
                = drop (length (queue (base (appsrcsink_queue p)))) (queue (base (appsrcsink_queue p)))"
            "user_data_queue (appsrcsink_queue p1) = drop 0 (user_data_queue (appsrcsink_queue p))"
            "frame_counter p1 = frame_counter p"
            using s3 by simp_all
          then show ?thesis by blast
        next
          case False
          then have "forward_input env buffer b user_data ?p1 = (r, p1)"
            using assms init Some True by (simp add: pushInput_def Let_def)
          then show ?thesis by (rule forwarded) simp_all
        qed
      next
        case False
        show ?thesis
        proof (cases "watchdog_counter p > 0")
          case True
          then have "forward_input env buffer b user_data (p\<lparr>watchdog_counter := 0\<rparr>) = (r, p1)"
            using assms init Some False by (auto simp add: pushInput_def Let_def)
          then show ?thesis by (rule forwarded) simp_all
        next
          case nz: False
          then have "forward_input env buffer b user_data p = (r, p1)"
            using assms init Some False by (auto simp add: pushInput_def Let_def)
          then show ?thesis by (rule forwarded) simp_all
        qed
      qed
    qed
  qed
qed

lemma match_user_data_shape:
  "match_user_data i xs = (r, rest) \<Longrightarrow>
   \<exists>k. rest = drop k xs \<and> (\<forall>e. r = Inr e \<longrightarrow> e \<in> set (take k xs))"
proof (induction xs)
  case Nil
  then have "rest = drop 0 [] \<and> (\<forall>e. r = Inr e \<longrightarrow> e \<in> set (take 0 []))" by auto
  then show ?case by (rule exI)
next
  case (Cons t xs)
  show ?case
  proof (cases "(scast i :: guint64) < offset (fst t)")
    case True
    then have "rest = drop 1 (t # xs) \<and> (\<forall>e. r = Inr e \<longrightarrow> e \<in> set (take 1 (t # xs)))"
      using Cons.prems by auto
    then show ?thesis by (rule exI)
  next
    case nl: False
    show ?thesis
    proof (cases "(scast i :: guint64) > offset (fst t)")
      case True
      then have "match_user_data i xs = (r, rest)" using Cons.prems nl by simp
      then obtain k where "rest = drop k xs" "\<forall>e. r = Inr e \<longrightarrow> e \<in> set (take k xs)"
        using Cons.IH by blast
      then have "rest = drop (Suc k) (t # xs)
          \<and> (\<forall>e. r = Inr e \<longrightarrow> e \<in> set (take (Suc k) (t # xs)))" by simp
      then show ?thesis by (rule exI)
    next
      case False
      then have "rest = drop 1 (t # xs) \<and> (\<forall>e. r = Inr e \<longrightarrow> e \<in> set (take 1 (t # xs)))"
        using Cons.prems nl by auto
      then show ?thesis by (rule exI)
    qed
  qed
qed

lemma count_correspondence_fail_base [simp]:
  "base (count_correspondence_fail q) = base q"
  by (simp add: count_correspondence_fail_def Let_def)

lemma match_and_publish_effect:
  assumes "match_and_publish env i buffer q = Some (r, q1)"
  shows "\<exists>k j. user_data_queue q1 = drop k (user_data_queue q)
     \<and> (queue (base q1) = drop j (queue (base q))
        \<or> (\<exists>w e. e \<in> set (take k (user_data_queue q))
              \<and> queue (base q1) = drop j (queue (base q)) @ [(w, snd e)]
              \<and> (case ptr w of None \<Rightarrow> True
                  | Some b \<Rightarrow> GST_BUFFER_OFFSET b = offset (fst e))))"
proof (cases "user_data_queue q = []")
  case True
  then have "q1 = q\<lparr>console := console q @ [ERROR_user_data_queue_empty]\<rparr>"
    using assms by (simp add: match_and_publish_def)
  then have "user_data_queue q1 = drop 0 (user_data_queue q)
     \<and> queue (base q1) = drop 0 (queue (base q))" by simp
  then show ?thesis by blast
next
  case False
  obtain res rest where m: "match_user_data i (user_data_queue q) = (res, rest)"
    by (cases "match_user_data i (user_data_queue q)") auto
  obtain k where k: "rest = drop k (user_data_queue q)"
    "\<forall>e. res = Inr e \<longrightarrow> e \<in> set (take k (user_data_queue q))"
    using match_user_data_shape [OF m] by blast
  show ?thesis
  proof (cases res)
    case (Inl e)
    then have "q1 = q\<lparr>user_data_queue := rest\<rparr>"
      using assms False m by (simp add: match_and_publish_def)
    then have "user_data_queue q1 = drop k (user_data_queue q)
       \<and> queue (base q1) = drop 0 (queue (base q))" using k by simp
    then show ?thesis by blast
  next
    case (Inr tuple)
    let ?t = "(stamp_buffer (fst tuple) buffer, snd tuple)"
    have p: "publish (schedule env) ?t (q\<lparr>user_data_queue := rest\<rparr>) = Some q1"
      using assms False m Inr by (auto simp add: match_and_publish_def split: option.splits)
    have u: "user_data_queue q1 = drop k (user_data_queue q)"
      using publish_queue [OF p] k by simp
    obtain j where j: "queue (base q1) = drop j (queue (base q)) @ [?t]
                \<or> queue (base q1) = drop j (queue (base q))"
      using publish_queue [OF p] by auto
    have mem: "tuple \<in> set (take k (user_data_queue q))" using k(2) Inr by simp
    have off: "case ptr (stamp_buffer (fst tuple) buffer) of None \<Rightarrow> True
                  | Some b \<Rightarrow> GST_BUFFER_OFFSET b = offset (fst tuple)"
      by (simp add: stamp_buffer_def split: option.splits)
    have "queue (base q1) = drop j (queue (base q))
        \<or> (\<exists>w e. e \<in> set (take k (user_data_queue q))
              \<and> queue (base q1) = drop j (queue (base q)) @ [(w, snd e)]
              \<and> (case ptr w of None \<Rightarrow> True
                  | Some b \<Rightarrow> GST_BUFFER_OFFSET b = offset (fst e)))"
      using j mem off by blast
    then show ?thesis using u by blast
  qed
qed

lemma newSampleCallback_effect:
  assumes "newSampleCallback env q = Some (r, q1)"
  shows "\<exists>k j. user_data_queue q1 = drop k (user_data_queue q)
     \<and> (queue (base q1) = drop j (queue (base q))
        \<or> (\<exists>w e. e \<in> set (take k (user_data_queue q))
              \<and> queue (base q1) = drop j (queue (base q)) @ [(w, snd e)]
              \<and> (case ptr w of None \<Rightarrow> True
                  | Some b \<Rightarrow> GST_BUFFER_OFFSET b = offset (fst e))))"
proof -
  have unchanged: ?thesis
    if "user_data_queue q1 = user_data_queue q" "base q1 = base q"
  proof -
    have "user_data_queue q1 = drop 0 (user_data_queue q)
     \<and> queue (base q1) = drop 0 (queue (base q))" using that by simp
    then show ?thesis by blast
  qed
  show ?thesis
  proof (cases "pulled_sample env")
    case None
    then have "user_data_queue q1 = user_data_queue q" "base q1 = base q"
      using assms by (auto simp add: newSampleCallback_def split: if_splits)
    then show ?thesis by (rule unchanged)
  next
    case (Some gst_buffer)
    let ?id = "case correspondence_meta gst_buffer of None \<Rightarrow> - 1 | Some i \<Rightarrow> i"
    show ?thesis
    proof (cases "?id = - 1")
      case True
      then have "q1 = count_correspondence_fail q"
        using assms Some by (simp add: newSampleCallback_def Let_def)
      then have "user_data_queue q1 = user_data_queue q" "base q1 = base q" by simp_all
      then show ?thesis by (rule unchanged)
    next
      case id: False
      show ?thesis
      proof (cases "copy_ok env")
        case False
        then have "q1 = q" using assms Some id by (simp add: newSampleCallback_def Let_def)
        then show ?thesis using unchanged by simp
      next
        case copy: True
        let ?q1 = "q\<lparr>output_frame_rate_counter := Suc (output_frame_rate_counter q)\<rparr>"
        let ?buffer1 = "fst (swap_wrappers (GstBufferWrapper_ctor2 (Some gst_buffer) False)
                               (GstBufferWrapper_ctor (Some gst_buffer)))"
        show ?thesis
        proof (cases "getSize (output_map_ok env) ?buffer1")
          case (Inl e)
          then have "q1 = ?q1"
            using assms Some id copy by (simp add: newSampleCallback_def Let_def)
          then have "user_data_queue q1 = user_data_queue q" "base q1 = base q" by simp_all
          then show ?thesis by (rule unchanged)
        next
          case (Inr szb)
          obtain sz buffer2 where szb: "szb = (sz, buffer2)" by (cases szb) auto
          have "match_and_publish env ?id buffer2 (report_output (output_report env) sz ?q1)
                  = Some (r, q1)"
            using assms Some id copy Inr szb by (simp add: newSampleCallback_def Let_def)
          then show ?thesis using match_and_publish_effect by fastforce
        qed
      qed
    qed
  qed
qed

lemma newAppsinkSampleCallback_effect:
  assumes "newAppsinkSampleCallback env p = Some (r, p1)"
  shows "frame_counter p1 = frame_counter p
     \<and> (\<exists>k j. user_data_queue (appsrcsink_queue p1)
                 = drop k (user_data_queue (appsrcsink_queue p))
          \<and> (queue (base (appsrcsink_queue p1)) = drop j (queue (base (appsrcsink_queue p)))
             \<or> (\<exists>w e. e \<in> set (take k (user_data_queue (appsrcsink_queue p)))
                   \<and> queue (base (appsrcsink_queue p1))
                       = drop j (queue (base (appsrcsink_queue p))) @ [(w, snd e)]
                   \<and> (case ptr w of None \<Rightarrow> True
                       | Some b \<Rightarrow> GST_BUFFER_OFFSET b = offset (fst e)))))"
proof -
  obtain q1 where q1: "newSampleCallback env (appsrcsink_queue p) = Some (r, q1)"
    and p1: "p1 = p\<lparr>delivering_appsink_sample := True, appsrcsink_queue := q1\<rparr>"
    using assms by (auto simp add: newAppsinkSampleCallback_def Let_def split: option.splits)
  show ?thesis using newSampleCallback_effect [OF q1] p1 by simp
qed

lemma popOutput_effect:
  "\<exists>i. queue (base (appsrcsink_queue (snd (popOutput p))))
          = drop i (queue (base (appsrcsink_queue p)))
     \<and> user_data_queue (appsrcsink_queue (snd (popOutput p)))
          = user_data_queue (appsrcsink_queue p)
     \<and> frame_counter (snd (popOutput p)) = frame_counter p"
proof (cases "queue (base (appsrcsink_queue p))")
  case Nil
  then have "queue (base (appsrcsink_queue (snd (popOutput p))))
          = drop 0 (queue (base (appsrcsink_queue p)))
     \<and> user_data_queue (appsrcsink_queue (snd (popOutput p)))
          = user_data_queue (appsrcsink_queue p)
     \<and> frame_counter (snd (popOutput p)) = frame_counter p"
    by (simp add: popOutput_def popFront_def popFrontWithoutLocking_def)
  then show ?thesis by (rule exI)
next
  case (Cons x xs)
  then have "queue (base (appsrcsink_queue (snd (popOutput p))))
          = drop 1 (queue (base (appsrcsink_queue p)))
     \<and> user_data_queue (appsrcsink_queue (snd (popOutput p)))
          = user_data_queue (appsrcsink_queue p)
     \<and> frame_counter (snd (popOutput p)) = frame_counter p"
    by (simp add: popOutput_def popFront_def popFrontWithoutLocking_def)
  then show ?thesis by (rule exI)
qed

lemma output_ids_drop:
  assumes "queue (base (appsrcsink_queue p1)) = drop i (queue (base (appsrcsink_queue p)))"
  shows "\<exists>j. output_ids p1 = drop j (output_ids p)"
  unfolding output_ids_def assms by (rule map_filter_suffix)

lemma output_ids_drop_snoc:
  assumes "queue (base (appsrcsink_queue p1))
             = drop i (queue (base (appsrcsink_queue p))) @ [(w, u)]"
    "case ptr w of None \<Rightarrow> True | Some b \<Rightarrow> GST_BUFFER_OFFSET b = x"
  shows "\<exists>j. output_ids p1 = drop j (output_ids p) \<or> output_ids p1 = drop j (output_ids p) @ [x]"
proof -
  let ?f = "\<lambda>x. map_option GST_BUFFER_OFFSET (ptr (fst x))"
  obtain j where j: "List.map_filter ?f (drop i (queue (base (appsrcsink_queue p))))
                       = drop j (List.map_filter ?f (queue (base (appsrcsink_queue p))))"
    using map_filter_suffix by blast
  have "output_ids p1 = drop j (output_ids p) @ (case ?f (w, u) of None \<Rightarrow> [] | Some y \<Rightarrow> [y])"
    unfolding output_ids_def assms(1) by (simp only: map_filter_snoc j)
  then have "output_ids p1 = drop j (output_ids p) \<or> output_ids p1 = drop j (output_ids p) @ [x]"
    using assms(2) by (cases "ptr w") auto
  then show ?thesis by (rule exI)
qed

lemma ordered_pushInput:
  assumes "ordered p" "unat (frame_counter p) + 1 < 2 ^ 64"
    "pushInput env buffer user_data p = (r, p1)"
  shows "ordered p1"
proof -
  obtain i k where i: "queue (base (appsrcsink_queue p1)) = drop i (queue (base (appsrcsink_queue p)))"
    and k: "user_data_queue (appsrcsink_queue p1) = drop k (user_data_queue (appsrcsink_queue p))
          \<or> (\<exists>e. user_data_queue (appsrcsink_queue p1)
                     = drop k (user_data_queue (appsrcsink_queue p)) @ [(e, user_data)]
                \<and> offset e = frame_counter p)"
    and c: "frame_counter p1 = frame_counter p \<or> frame_counter p1 = frame_counter p + 1"
    using pushInput_effect [OF assms(3)] by blast
  obtain j where j: "output_ids p1 = drop j (output_ids p)"
    using output_ids_drop [OF i] by blast
  have le: "frame_counter p \<le> frame_counter p1"
    using c word_le_Suc [OF assms(2)] by auto
  have s: "sorted (output_ids p @ pending_ids p @ [frame_counter p])"
    using assms(1) by (simp only: ordered_def)
  have pend: "pending_ids p1 = drop k (pending_ids p)
      \<or> pending_ids p1 = drop k (pending_ids p) @ [frame_counter p]"
    using k by (auto simp add: pending_ids_def drop_map)
  then show ?thesis
  proof
    assume "pending_ids p1 = drop k (pending_ids p)"
    then show ?thesis
      unfolding ordered_def j using sorted_after_push(1) [OF s le] by simp
  next
    assume "pending_ids p1 = drop k (pending_ids p) @ [frame_counter p]"
    then show ?thesis
      unfolding ordered_def j using sorted_after_push(2) [OF s le] by simp
  qed
qed

lemma ordered_delivery:
  assumes "ordered p" "newAppsinkSampleCallback env p = Some (r, p1)"
  shows "ordered p1"
proof -
  have s: "sorted (output_ids p @ pending_ids p @ [frame_counter p])"
    using assms(1) by (simp only: ordered_def)
  obtain k i where c: "frame_counter p1 = frame_counter p"
    and k: "user_data_queue (appsrcsink_queue p1) = drop k (user_data_queue (appsrcsink_queue p))"
    and i: "queue (base (appsrcsink_queue p1)) = drop i (queue (base (appsrcsink_queue p)))
             \<or> (\<exists>w e. e \<in> set (take k (user_data_queue (appsrcsink_queue p)))
                   \<and> queue (base (appsrcsink_queue p1))
                       = drop i (queue (base (appsrcsink_queue p))) @ [(w, snd e)]
                   \<and> (case ptr w of None \<Rightarrow> True
                       | Some b \<Rightarrow> GST_BUFFER_OFFSET b = offset (fst e)))"
    using newAppsinkSampleCallback_effect [OF assms(2)] by blast
  have pend: "pending_ids p1 = drop k (pending_ids p)"
    using k by (simp add: pending_ids_def drop_map)
  from i show ?thesis
  proof
    assume "queue (base (appsrcsink_queue p1)) = drop i (queue (base (appsrcsink_queue p)))"
    then obtain j where "output_ids p1 = drop j (output_ids p)"
      using output_ids_drop by blast
    then show ?thesis
      unfolding ordered_def pend c using sorted_after_delivery(1) [OF s] by simp
  next
    assume "\<exists>w e. e \<in> set (take k (user_data_queue (appsrcsink_queue p)))
                   \<and> queue (base (appsrcsink_queue p1))
                       = drop i (queue (base (appsrcsink_queue p))) @ [(w, snd e)]
                   \<and> (case ptr w of None \<Rightarrow> True
                       | Some b \<Rightarrow> GST_BUFFER_OFFSET b = offset (fst e))"
    then obtain w e where e: "e \<in> set (take k (user_data_queue (appsrcsink_queue p)))"
      and q: "queue (base (appsrcsink_queue p1))
                       = drop i (queue (base (appsrcsink_queue p))) @ [(w, snd e)]"
      and off: "case ptr w of None \<Rightarrow> True | Some b \<Rightarrow> GST_BUFFER_OFFSET b = offset (fst e)"
      by blast
    have x: "offset (fst e) \<in> set (take k (pending_ids p))"
      using e by (auto simp add: pending_ids_def take_map)
    obtain j where "output_ids p1 = drop j (output_ids p)
        \<or> output_ids p1 = drop j (output_ids p) @ [offset (fst e)]"
      using output_ids_drop_snoc [OF q off] by blast
    then show ?thesis
    proof
      assume "output_ids p1 = drop j (output_ids p)"
      then show ?thesis
        unfolding ordered_def pend c using sorted_after_delivery(1) [OF s] by simp
    next
      assume "output_ids p1 = drop j (output_ids p) @ [offset (fst e)]"
      then show ?thesis
        unfolding ordered_def pend c using sorted_after_delivery(2) [OF s x] by simp
    qed
  qed
qed

lemma ordered_popOutput:
  assumes "ordered p"
  shows "ordered (snd (popOutput p))"
proof -
  have s: "sorted (output_ids p @ pending_ids p @ [frame_counter p])"
    using assms by (simp only: ordered_def)
  obtain i where i: "queue (base (appsrcsink_queue (snd (popOutput p))))
          = drop i (queue (base (appsrcsink_queue p)))"
    and k: "user_data_queue (appsrcsink_queue (snd (popOutput p)))
          = user_data_queue (appsrcsink_queue p)"
    and c: "frame_counter (snd (popOutput p)) = frame_counter p"
    using popOutput_effect [of p] by blast
  obtain j where j: "output_ids (snd (popOutput p)) = drop j (output_ids p)"
    using output_ids_drop [OF i] by blast
  have pend: "pending_ids (snd (popOutput p)) = drop 0 (pending_ids p)"
    using k by (simp add: pending_ids_def)
  show ?thesis
    unfolding ordered_def j pend c using sorted_after_delivery(1) [OF s] by blast
qed

lemma snd_run_Push:
  "snd (run (Push env buffer u # acts) p) = snd (run acts (snd (pushInput env buffer u p)))"
  by (simp split: prod.splits)

lemma snd_run_Deliver:
  "newAppsinkSampleCallback senv p = Some (r, p1) \<Longrightarrow>
   snd (run (Deliver senv # acts) p) = snd (run acts p1)"
  by (simp split: prod.splits)

lemma snd_run_Pop:
  "snd (run (Pop # acts) p) = snd (run acts (snd (popOutput p)))"
  by (simp split: prod.splits)

lemma run_ordered:
  "ordered p \<Longrightarrow> unat (frame_counter p) + length (users_of acts) < 2 ^ 64 \<Longrightarrow>
   ordered (snd (run acts p))"
proof (induction acts arbitrary: p)
  case Nil
  then show ?case by simp
next
  case (Cons act acts)
  show ?case
  proof (cases act)
    case (Push env buffer u)
    obtain r p1 where one: "pushInput env buffer u p = (r, p1)"
      by (cases "pushInput env buffer u p") auto
    have room: "unat (frame_counter p) + 1 < 2 ^ 64" using Cons.prems(2) Push by simp
    have o: "ordered p1" using Cons.prems(1) room one by (rule ordered_pushInput)
    have "frame_counter p1 = frame_counter p \<or> frame_counter p1 = frame_counter p + 1"
      using pushInput_effect [OF one] by blast
    then have "unat (frame_counter p1) \<le> unat (frame_counter p) + 1"
      using unat_Suc_le [of "frame_counter p"] by auto
    then have "unat (frame_counter p1) + length (users_of acts) < 2 ^ 64"
      using Cons.prems(2) Push by simp
    then have "ordered (snd (run acts p1))" using o Cons.IH by blast
    then show ?thesis using Push one by (simp only: snd_run_Push snd_conv)
  next
    case (Deliver senv)
    show ?thesis
    proof (cases "newAppsinkSampleCallback senv p")
      case None
      then show ?thesis using Deliver Cons.prems(1) by simp
    next
      case (Some rp)
      obtain r p1 where rp: "rp = (r, p1)" by (cases rp) auto
      have o: "ordered p1" using Cons.prems(1) Some rp by (simp add: ordered_delivery)
      have "frame_counter p1 = frame_counter p"
        using newAppsinkSampleCallback_effect [of senv p r p1] Some rp by simp
      then have "unat (frame_counter p1) + length (users_of acts) < 2 ^ 64"
        using Cons.prems(2) Deliver by simp
      then have "ordered (snd (run acts p1))" using o Cons.IH by blast
      then show ?thesis using Deliver Some rp by (simp only: snd_run_Deliver)
    qed
  next
    case Pop
    obtain r p1 where one: "popOutput p = (r, p1)" by (cases "popOutput p") auto
    have p1: "p1 = snd (popOutput p)" using one by simp
    have o: "ordered p1" unfolding p1 using Cons.prems(1) by (rule ordered_popOutput)
    have "frame_counter p1 = frame_counter p"
      unfolding p1 using popOutput_effect [of p] by blast
    then have "unat (frame_counter p1) + length (users_of acts) < 2 ^ 64"
      using Cons.prems(2) Pop by simp
    then have "ordered (snd (run acts p1))" using o Cons.IH by blast
    then show ?thesis using Pop one by (simp only: snd_run_Pop snd_conv)
  qed
qed

lemma ordered_output: "ordered p \<Longrightarrow> sorted (output_ids p)"
  by (simp add: ordered_def sorted_append)

lemma empty_ordered:
  "user_data_queue (appsrcsink_queue p) = [] \<Longrightarrow> queue (base (appsrcsink_queue p)) = [] \<Longrightarrow>
   ordered p"
  by (simp add: ordered_def output_ids_def pending_ids_def List.map_filter_def)

lemma matched_pairs_explicit:
  "map2 matched_pair bs (zip (map buffer_info_of as) us) =
     map (\<lambda>(b, a, u).
            (\<lparr>ptr = Some (b\<lparr>GST_BUFFER_PTS := GST_BUFFER_PTS a,
                             GST_BUFFER_DTS := GST_BUFFER_DTS a,
                             GST_BUFFER_DURATION := GST_BUFFER_DURATION a,
                             GST_BUFFER_OFFSET := GST_BUFFER_OFFSET a,
                             GST_BUFFER_OFFSET_END := GST_BUFFER_OFFSET_END a\<rparr>),
              info = Some \<lparr>map_flags = GST_MAP_READ, map_data = memory b,
                           map_size = of_nat (length (memory b))\<rparr>,
              mapped = True, mapped_writable = False, owns_buffer = True\<rparr>, u))
         (zip bs (zip as us))"
proof (induction bs arbitrary: as us)
  case Nil
  then show ?case by simp
next
  case (Cons b bs)
  show ?case
  proof (cases as)
    case Nil
    then show ?thesis by simp
  next
    case ca: (Cons a as')
    show ?thesis
    proof (cases us)
      case Nil
      then show ?thesis by simp
    next
      case (Cons u us')
      then show ?thesis
        using ca Cons.IH [of as' us']
        by (simp add: matched_pair_def stamp_buffer_def copy_wrapper_def buffer_info_of_def)
    qed
  qed
qed

text \<open>
  A delivery that finds the output queue full, in a blocking mode, and sees the consumer
  pop during its first wait, returns; and the run is the one in which the consumer pops
  first and the delivery finds the free slot.
\<close>

lemma waiting_delivery_wakes_on_pop:
  assumes sample: "pulled_sample senv = Some b" "correspondence_meta b = Some i" "i \<noteq> - 1"
    and copy: "copy_ok senv" "output_map_ok senv"
    and full: "length (queue (base (appsrcsink_queue p)))
                 \<ge> unat (max_queue_size (base (appsrcsink_queue p)))"
      "\<not> discard_everything (base (appsrcsink_queue p))"
    and mode: "discard_mode (appsrcsink_queue p) \<noteq> DISCARD_OUTPUT_FRAMES"
    and found: "fst (match_user_data i (user_data_queue (appsrcsink_queue p))) = Inr tuple"
  shows "newAppsinkSampleCallback (senv\<lparr>schedule := [EnvPopFront] # env\<rparr>) p
           = newAppsinkSampleCallback (senv\<lparr>schedule := env\<rparr>) (snd (popOutput p))"
proof -
  let ?q = "appsrcsink_queue p"
  let ?s1 = "senv\<lparr>schedule := [EnvPopFront] # env\<rparr>"
  let ?s2 = "senv\<lparr>schedule := env\<rparr>"
  let ?b1 = "snd (popFrontWithoutLocking (base ?q))"
  have s1: "pulled_sample ?s1 = Some b" "correspondence_meta b = Some i" "i \<noteq> - 1"
    "copy_ok ?s1" "output_map_ok ?s1"
    using sample copy by simp_all
  have s2: "pulled_sample ?s2 = Some b" "correspondence_meta b = Some i" "i \<noteq> - 1"
    "copy_ok ?s2" "output_map_ok ?s2"
    using sample copy by simp_all
  have ne: "user_data_queue ?q \<noteq> []"
  proof
    assume "user_data_queue ?q = []"
    then show False using found by simp
  qed
  obtain rest where m: "match_user_data i (user_data_queue ?q) = (Inr tuple, rest)"
    using found by (cases "match_user_data i (user_data_queue ?q)") auto
  have w: "wait_for_space (base ?q) ([EnvPopFront] # env) = wait_for_space ?b1 env"
    using full by simp
  have pp: "snd (popOutput p) = p\<lparr>appsrcsink_queue := ?q\<lparr>base := ?b1\<rparr>\<rparr>"
    by (simp add: popOutput_def popFront_def split: prod.splits)
  show ?thesis
    unfolding pp newAppsinkSampleCallback_def Let_def
    using ne m w mode
    by (simp add: newSampleCallback_reaches_match [OF s1] newSampleCallback_reaches_match [OF s2]
        match_and_publish_def publish_def pushBack_def report_output_def
        count_sink_overflow_def Let_def
        split: option.splits)
qed

lemma waiting_delivery_returns:
  assumes sample: "pulled_sample senv = Some b" "correspondence_meta b = Some i" "i \<noteq> - 1"
    and copy: "copy_ok senv" "output_map_ok senv"
    and full: "length (queue (base (appsrcsink_queue p)))
                 = unat (max_queue_size (base (appsrcsink_queue p)))"
      "queue (base (appsrcsink_queue p)) \<noteq> []"
      "\<not> discard_everything (base (appsrcsink_queue p))"
    and mode: "discard_mode (appsrcsink_queue p) \<noteq> DISCARD_OUTPUT_FRAMES"
    and found: "fst (match_user_data i (user_data_queue (appsrcsink_queue p))) = Inr tuple"
  shows "newAppsinkSampleCallback (senv\<lparr>schedule := [EnvPopFront] # env\<rparr>) p \<noteq> None"
proof -
  let ?q = "appsrcsink_queue p"
  let ?s1 = "senv\<lparr>schedule := [EnvPopFront] # env\<rparr>"
  let ?b1 = "snd (popFrontWithoutLocking (base ?q))"
  have s1: "pulled_sample ?s1 = Some b" "correspondence_meta b = Some i" "i \<noteq> - 1"
    "copy_ok ?s1" "output_map_ok ?s1"
    using sample copy by simp_all
  have ne: "user_data_queue ?q \<noteq> []"
  proof
    assume "user_data_queue ?q = []"
    then show False using found by simp
  qed
  obtain rest where m: "match_user_data i (user_data_queue ?q) = (Inr tuple, rest)"
    using found by (cases "match_user_data i (user_data_queue ?q)") auto
  have "\<not> (length (queue ?b1) \<ge> unat (max_queue_size ?b1) \<and> \<not> discard_everything ?b1)"
    using full by (cases "queue (base ?q)") (simp_all add: popFrontWithoutLocking_def)
  then have "wait_for_space ?b1 env = Some ?b1" by (rule wait_for_space_ready)
  then have w: "wait_for_space (base ?q) ([EnvPopFront] # env) = Some ?b1"
    using full by simp
  show ?thesis
    unfolding newAppsinkSampleCallback_def Let_def
    using ne m w mode
    by (simp add: newSampleCallback_reaches_match [OF s1]
        match_and_publish_def publish_def pushBack_def report_output_def Let_def
        split: option.splits)
qed

lemma waiting_delivery_is_pop_then_delivery:
  assumes sample: "pulled_sample senv = Some b" "correspondence_meta b = Some i" "i \<noteq> - 1"
    and copy: "copy_ok senv" "output_map_ok senv"
    and full: "length (queue (base (appsrcsink_queue p)))
                 = unat (max_queue_size (base (appsrcsink_queue p)))"
      "queue (base (appsrcsink_queue p)) \<noteq> []"
      "\<not> discard_everything (base (appsrcsink_queue p))"
    and mode: "discard_mode (appsrcsink_queue p) \<noteq> DISCARD_OUTPUT_FRAMES"
    and found: "fst (match_user_data i (user_data_queue (appsrcsink_queue p))) = Inr tuple"
  shows "run (Pop # Deliver (senv\<lparr>schedule := env\<rparr>) # acts) p =
     (Popped (Inr (hd (queue (base (appsrcsink_queue p)))))
        # fst (run (Deliver (senv\<lparr>schedule := [EnvPopFront] # env\<rparr>) # acts) p),
      snd (run (Deliver (senv\<lparr>schedule := [EnvPopFront] # env\<rparr>) # acts) p))"
proof -
  have ge: "length (queue (base (appsrcsink_queue p)))
                 \<ge> unat (max_queue_size (base (appsrcsink_queue p)))"
    using full(1) by simp
  have eq: "newAppsinkSampleCallback (senv\<lparr>schedule := [EnvPopFront] # env\<rparr>) p
           = newAppsinkSampleCallback (senv\<lparr>schedule := env\<rparr>) (snd (popOutput p))"
    using sample copy ge full(3) mode found by (rule waiting_delivery_wakes_on_pop)
  have ret: "newAppsinkSampleCallback (senv\<lparr>schedule := [EnvPopFront] # env\<rparr>) p \<noteq> None"
    using assms by (rule waiting_delivery_returns)
  have pop: "fst (popOutput p) = Inr (hd (queue (base (appsrcsink_queue p))))"
    using full(2)
    by (cases "queue (base (appsrcsink_queue p))")
       (simp_all add: popOutput_def popFront_def popFrontWithoutLocking_def)
  obtain r p1 where one: "popOutput p = (r, p1)" by (cases "popOutput p") auto
  obtain r2 p2 where two: "newAppsinkSampleCallback (senv\<lparr>schedule := env\<rparr>) p1 = Some (r2, p2)"
    using ret eq one by (cases "newAppsinkSampleCallback (senv\<lparr>schedule := env\<rparr>) p1") auto
  have two': "newAppsinkSampleCallback (senv\<lparr>schedule := [EnvPopFront] # env\<rparr>) p = Some (r2, p2)"
    using eq one two by simp
  show ?thesis using one two two' pop by (simp split: prod.splits)
qed

text \<open>
  Two frames on a queue of one slot in mode \<^verbatim>\<open>DISCARD_INPUT_FRAMES\<close>: the second delivery
  finds the slot taken, waits, and returns once the consumer has popped the first pair.
\<close>

lemma waiting_delivery_example:
  "(let r = run [submit 10, submit 11, deliver 0,
                 Deliver ((result_with_id 1)\<lparr>schedule := [[EnvPopFront]]\<rparr>)]
                (started DISCARD_INPUT_FRAMES 1 3)
    in (fst r, map snd (queue (base (appsrcsink_queue (snd r)))), output_ids (snd r)))
   = ([Pushed (Inr True), Pushed (Inr True), Delivered (Inr GST_FLOW_OK),
       Delivered (Inr GST_FLOW_OK)], [11], [1])"
  by code_simp

text \<open>
  C1. A run is any interleaving of \<^verbatim>\<open>pushInput\<close> calls, egress results delivered through
  \<^verbatim>\<open>newAppsinkSampleCallback\<close> and \<^verbatim>\<open>popOutput\<close> calls.

  The order of the ids: if the ids in the output queue, then those in the pending queue,
  then \<^verbatim>\<open>frame_counter_\<close> are in non-decreasing order before a run, and \<^verbatim>\<open>frame_counter_\<close>
  does not wrap around \<open>2^64\<close> during it, they are so after it, and the ids in the output
  queue are non-decreasing. This holds of every run, whatever the calls meet: rejected
  and failed submissions, evictions, dropped pairs, exceptions, restarts by the watchdog,
  results without an id or with any id. Two empty queues are in that order.

  The pairs: the run starts with both queues empty and drain mode off; every \<^verbatim>\<open>pushInput\<close>
  returns true; no frame is submitted while \<^verbatim>\<open>MAX_USER_DATA_QUEUE_SIZE\<close> frames await their
  result; the results arrive in the order of submission, each after its frame was
  submitted, carrying the id \<^verbatim>\<open>pushInput\<close> gave that frame, and each can be copied and
  mapped; a result is published when the output queue has a free slot (a delivery that
  waits for the slot stands after the pop that frees it, lemma
  \<open>waiting_delivery_is_pop_then_delivery\<close>); \<^verbatim>\<open>popOutput\<close> is called when there is a pair;
  and the ids stay below \<open>2^31\<close>. Then every call returns. The buffers handed to the
  ingest port, \<open>A\<close>, are one for each submission, with the payload of the submitted buffer,
  the offsets \<^verbatim>\<open>frame_counter_\<close>, \<^verbatim>\<open>frame_counter_ + 1\<close>, ..., each with its offset as
  correspondence id. Every callback returns \<^verbatim>\<open>GST_FLOW_OK\<close>. The \<open>k\<close>-th \<^verbatim>\<open>popOutput\<close>
  returns the user data of the \<open>k\<close>-th submission, with a wrapper that owns the deep copy
  of the \<open>k\<close>-th result buffer, mapped for reading: the copy has the payload and the meta
  of the result and the five timing fields of the \<open>k\<close>-th buffer of \<open>A\<close>.
\<close>

theorem submitted_in_order_delivered_in_order:
  "(ordered p \<and> unat (frame_counter p) + length (users_of acts) < 2 ^ 64 \<longrightarrow>
      ordered (snd (run acts p)) \<and> sorted (output_ids (snd (run acts p))))
   \<and> (user_data_queue (appsrcsink_queue p) = [] \<and> queue (base (appsrcsink_queue p)) = []
      \<and> \<not> discard_everything (base (appsrcsink_queue p))
      \<and> admissible (unat (max_queue_size (base (appsrcsink_queue p)))) 0 0 acts
      \<and> results_in_order (frame_counter p) acts
      \<and> unat (frame_counter p) + length (users_of acts) \<le> 2 ^ 31
      \<and> pushed_of (fst (run acts p)) = replicate (length (users_of acts)) (Inr True) \<longrightarrow>
      (\<exists>A. appsrc (snd (run acts p)) = appsrc p @ A
         \<and> length A = length (users_of acts)
         \<and> map GST_BUFFER_OFFSET A
             = map (\<lambda>k. frame_counter p + of_nat k) [0..<length (users_of acts)]
         \<and> list_all (\<lambda>a. GST_BUFFER_DTS a = GST_CLOCK_TIME_NONE
                         \<and> GST_BUFFER_DURATION a = gst_frame_period
                         \<and> GST_BUFFER_OFFSET_END a = GST_BUFFER_OFFSET_NONE
                         \<and> correspondence_meta a = Some (ucast (GST_BUFFER_OFFSET a))) A
         \<and> map memory A = map memory (frames_of acts)
         \<and> delivered_of (fst (run acts p))
             = replicate (length (results_of acts)) (Inr GST_FLOW_OK)
         \<and> popped_of (fst (run acts p))
             = map Inr (take (pops_of acts)
                 (map (\<lambda>(b, a, u).
                        (\<lparr>ptr = Some (b\<lparr>GST_BUFFER_PTS := GST_BUFFER_PTS a,
                                         GST_BUFFER_DTS := GST_BUFFER_DTS a,
                                         GST_BUFFER_DURATION := GST_BUFFER_DURATION a,
                                         GST_BUFFER_OFFSET := GST_BUFFER_OFFSET a,
                                         GST_BUFFER_OFFSET_END := GST_BUFFER_OFFSET_END a\<rparr>),
                          info = Some \<lparr>map_flags = GST_MAP_READ, map_data = memory b,
                                       map_size = of_nat (length (memory b))\<rparr>,
                          mapped = True, mapped_writable = False, owns_buffer = True\<rparr>, u))
                    (zip (results_of acts) (zip A (users_of acts)))))
         \<and> length (fst (run acts p)) = length acts))"
proof (intro conjI impI)
  assume "ordered p \<and> unat (frame_counter p) + length (users_of acts) < 2 ^ 64"
  then show o: "ordered (snd (run acts p))" by (simp add: run_ordered)
  then show "sorted (output_ids (snd (run acts p)))" by (rule ordered_output)
next
  assume h: "user_data_queue (appsrcsink_queue p) = [] \<and> queue (base (appsrcsink_queue p)) = []
      \<and> \<not> discard_everything (base (appsrcsink_queue p))
      \<and> admissible (unat (max_queue_size (base (appsrcsink_queue p)))) 0 0 acts
      \<and> results_in_order (frame_counter p) acts
      \<and> unat (frame_counter p) + length (users_of acts) \<le> 2 ^ 31
      \<and> pushed_of (fst (run acts p)) = replicate (length (users_of acts)) (Inr True)"
  have p1: "user_data_queue (appsrcsink_queue p) = []" using h by simp
  have p2: "map (\<lambda>e. offset (fst e)) ([] :: (GstreamerBufferInfo \<times> 'a) list)
              = map (\<lambda>k. frame_counter p + of_nat k) [0..<length ([] :: (GstreamerBufferInfo \<times> 'a) list)]"
    by simp
  have p3: "frame_counter p = frame_counter p + of_nat (length ([] :: (GstreamerBufferInfo \<times> 'a) list))"
    by simp
  have p4: "queue (base (appsrcsink_queue p)) = []" using h by simp
  have p5: "\<not> discard_everything (base (appsrcsink_queue p))" using h by simp
  have p6: "admissible (unat (max_queue_size (base (appsrcsink_queue p))))
              (length ([] :: (GstreamerBufferInfo \<times> 'a) list))
              (length ([] :: (GstBufferWrapper \<times> 'a) list)) acts"
    using h by simp
  have p7: "results_in_order (frame_counter p) acts" using h by simp
  have p8: "unat (frame_counter p) + length ([] :: (GstreamerBufferInfo \<times> 'a) list)
              + length (users_of acts) \<le> 2 ^ 31"
    using h by simp
  have p9: "pushed_of (fst (run acts p)) = replicate (length (users_of acts)) (Inr True)"
    using h by simp
  show "\<exists>A. appsrc (snd (run acts p)) = appsrc p @ A
         \<and> length A = length (users_of acts)
         \<and> map GST_BUFFER_OFFSET A
             = map (\<lambda>k. frame_counter p + of_nat k) [0..<length (users_of acts)]
         \<and> list_all (\<lambda>a. GST_BUFFER_DTS a = GST_CLOCK_TIME_NONE
                         \<and> GST_BUFFER_DURATION a = gst_frame_period
                         \<and> GST_BUFFER_OFFSET_END a = GST_BUFFER_OFFSET_NONE
                         \<and> correspondence_meta a = Some (ucast (GST_BUFFER_OFFSET a))) A
         \<and> map memory A = map memory (frames_of acts)
         \<and> delivered_of (fst (run acts p))
             = replicate (length (results_of acts)) (Inr GST_FLOW_OK)
         \<and> popped_of (fst (run acts p))
             = map Inr (take (pops_of acts)
                 (map (\<lambda>(b, a, u).
                        (\<lparr>ptr = Some (b\<lparr>GST_BUFFER_PTS := GST_BUFFER_PTS a,
                                         GST_BUFFER_DTS := GST_BUFFER_DTS a,
                                         GST_BUFFER_DURATION := GST_BUFFER_DURATION a,
                                         GST_BUFFER_OFFSET := GST_BUFFER_OFFSET a,
                                         GST_BUFFER_OFFSET_END := GST_BUFFER_OFFSET_END a\<rparr>),
                          info = Some \<lparr>map_flags = GST_MAP_READ, map_data = memory b,
                                       map_size = of_nat (length (memory b))\<rparr>,
                          mapped = True, mapped_writable = False, owns_buffer = True\<rparr>, u))
                    (zip (results_of acts) (zip A (users_of acts)))))
         \<and> length (fst (run acts p)) = length acts"
    using run_in_order [OF p1 p2 p3 p4 p5 p6 p7 p8 p9]
    by (simp only: matched_pairs_explicit append_Nil)
qed

text \<open>
  A run on an output queue with one slot, in mode \<^verbatim>\<open>DISCARD_INPUT_FRAMES\<close>: two frames are
  submitted, the first result is delivered and popped, the second delivered, a third frame
  submitted, the second pair popped, the third result delivered and popped.
\<close>

theorem submitted_in_order_delivered_in_order_witness:
  "length (fst (run interleaved (started DISCARD_INPUT_FRAMES 1 3))) = 9
   \<and> delivered_of (fst (run interleaved (started DISCARD_INPUT_FRAMES 1 3)))
       = [Inr GST_FLOW_OK, Inr GST_FLOW_OK, Inr GST_FLOW_OK]
   \<and> popped_of (fst (run interleaved (started DISCARD_INPUT_FRAMES 1 3)))
       = [Inr (\<lparr>ptr = Some \<lparr>GST_BUFFER_PTS = 0, GST_BUFFER_DTS = - 1,
                              GST_BUFFER_DURATION = 100000000, GST_BUFFER_OFFSET = 0,
                              GST_BUFFER_OFFSET_END = - 1, correspondence_meta = Some 0,
                              memory = [1, 2, 3]\<rparr>,
                 info = Some \<lparr>map_flags = GST_MAP_READ, map_data = [1, 2, 3], map_size = 3\<rparr>,
                 mapped = True, mapped_writable = False, owns_buffer = True\<rparr>, 10),
          Inr (\<lparr>ptr = Some \<lparr>GST_BUFFER_PTS = 100000000, GST_BUFFER_DTS = - 1,
                              GST_BUFFER_DURATION = 100000000, GST_BUFFER_OFFSET = 1,
                              GST_BUFFER_OFFSET_END = - 1, correspondence_meta = Some 1,
                              memory = [1, 2, 3]\<rparr>,
                 info = Some \<lparr>map_flags = GST_MAP_READ, map_data = [1, 2, 3], map_size = 3\<rparr>,
                 mapped = True, mapped_writable = False, owns_buffer = True\<rparr>, 11),
          Inr (\<lparr>ptr = Some \<lparr>GST_BUFFER_PTS = 100000000, GST_BUFFER_DTS = - 1,
                              GST_BUFFER_DURATION = 100000000, GST_BUFFER_OFFSET = 2,
                              GST_BUFFER_OFFSET_END = - 1, correspondence_meta = Some 2,
                              memory = [1, 2, 3]\<rparr>,
                 info = Some \<lparr>map_flags = GST_MAP_READ, map_data = [1, 2, 3], map_size = 3\<rparr>,
                 mapped = True, mapped_writable = False, owns_buffer = True\<rparr>, 12)]
   \<and> ordered (snd (run interleaved (started DISCARD_INPUT_FRAMES 1 3)))
   \<and> sorted (output_ids (snd (run interleaved (started DISCARD_INPUT_FRAMES 1 3))))"
proof -
  let ?p = "started DISCARD_INPUT_FRAMES 1 3 :: nat GstreamerPipeline"
  have e: "user_data_queue (appsrcsink_queue ?p) = [] \<and> queue (base (appsrcsink_queue ?p)) = []
      \<and> \<not> discard_everything (base (appsrcsink_queue ?p))"
    by code_simp
  have fc: "frame_counter ?p = 0" and port: "appsrc ?p = []"
    and cap: "unat (max_queue_size (base (appsrcsink_queue ?p))) = 1"
    by code_simp+
  have us: "users_of interleaved = [10, 11, 12]" by code_simp
  have bs: "results_of interleaved
      = [buffer0\<lparr>correspondence_meta := Some 0\<rparr>, buffer0\<lparr>correspondence_meta := Some 1\<rparr>,
         buffer0\<lparr>correspondence_meta := Some 2\<rparr>]"
    by code_simp
  have pops: "pops_of interleaved = 3" by code_simp
  have len: "length interleaved = 9" by code_simp
  have adm: "admissible (unat (max_queue_size (base (appsrcsink_queue ?p)))) 0 0 interleaved"
    by code_simp
  have rio: "results_in_order (frame_counter ?p) interleaved" by code_simp
  have range: "unat (frame_counter ?p) + length (users_of interleaved) \<le> 2 ^ 31"
    unfolding fc us by simp
  have nowrap: "unat (frame_counter ?p) + length (users_of interleaved) < 2 ^ 64"
    unfolding fc us by simp
  have pushed: "pushed_of (fst (run interleaved ?p))
      = replicate (length (users_of interleaved)) (Inr True)"
    by code_simp
  have o: "ordered ?p" using e by (simp add: empty_ordered)
  have final: "appsrc (snd (run interleaved ?p))
      = [\<lparr>GST_BUFFER_PTS = 0, GST_BUFFER_DTS = - 1, GST_BUFFER_DURATION = 100000000,
          GST_BUFFER_OFFSET = 0, GST_BUFFER_OFFSET_END = - 1, correspondence_meta = Some 0,
          memory = [1, 2, 3]\<rparr>,
         \<lparr>GST_BUFFER_PTS = 100000000, GST_BUFFER_DTS = - 1, GST_BUFFER_DURATION = 100000000,
          GST_BUFFER_OFFSET = 1, GST_BUFFER_OFFSET_END = - 1, correspondence_meta = Some 1,
          memory = [1, 2, 3]\<rparr>,
         \<lparr>GST_BUFFER_PTS = 100000000, GST_BUFFER_DTS = - 1, GST_BUFFER_DURATION = 100000000,
          GST_BUFFER_OFFSET = 2, GST_BUFFER_OFFSET_END = - 1, correspondence_meta = Some 2,
          memory = [1, 2, 3]\<rparr>]"
    by code_simp
  note main = submitted_in_order_delivered_in_order [of ?p interleaved]
  have a: "ordered (snd (run interleaved ?p)) \<and> sorted (output_ids (snd (run interleaved ?p)))"
    using main o nowrap by blast
  obtain A where A: "appsrc (snd (run interleaved ?p)) = appsrc ?p @ A"
    and d: "delivered_of (fst (run interleaved ?p))
             = replicate (length (results_of interleaved)) (Inr GST_FLOW_OK)"
    and pp: "popped_of (fst (run interleaved ?p))
             = map Inr (take (pops_of interleaved)
                 (map (\<lambda>(b, a, u).
                        (\<lparr>ptr = Some (b\<lparr>GST_BUFFER_PTS := GST_BUFFER_PTS a,
                                         GST_BUFFER_DTS := GST_BUFFER_DTS a,
                                         GST_BUFFER_DURATION := GST_BUFFER_DURATION a,
                                         GST_BUFFER_OFFSET := GST_BUFFER_OFFSET a,
                                         GST_BUFFER_OFFSET_END := GST_BUFFER_OFFSET_END a\<rparr>),
                          info = Some \<lparr>map_flags = GST_MAP_READ, map_data = memory b,
                                       map_size = of_nat (length (memory b))\<rparr>,
                          mapped = True, mapped_writable = False, owns_buffer = True\<rparr>, u))
                    (zip (results_of interleaved) (zip A (users_of interleaved)))))"
    and l: "length (fst (run interleaved ?p)) = length interleaved"
    using main e adm rio range pushed by blast
  have A': "A = appsrc (snd (run interleaved ?p))" using A port by simp
  have c1: "length (fst (run interleaved ?p)) = 9" using l len by simp
  have c2: "delivered_of (fst (run interleaved ?p))
       = [Inr GST_FLOW_OK, Inr GST_FLOW_OK, Inr GST_FLOW_OK]"
    using d unfolding bs by (simp add: numeral_3_eq_3)
  have c3: "popped_of (fst (run interleaved ?p))
       = [Inr (\<lparr>ptr = Some \<lparr>GST_BUFFER_PTS = 0, GST_BUFFER_DTS = - 1,
                              GST_BUFFER_DURATION = 100000000, GST_BUFFER_OFFSET = 0,
                              GST_BUFFER_OFFSET_END = - 1, correspondence_meta = Some 0,
                              memory = [1, 2, 3]\<rparr>,
                 info = Some \<lparr>map_flags = GST_MAP_READ, map_data = [1, 2, 3], map_size = 3\<rparr>,
                 mapped = True, mapped_writable = False, owns_buffer = True\<rparr>, 10),
          Inr (\<lparr>ptr = Some \<lparr>GST_BUFFER_PTS = 100000000, GST_BUFFER_DTS = - 1,
                              GST_BUFFER_DURATION = 100000000, GST_BUFFER_OFFSET = 1,
                              GST_BUFFER_OFFSET_END = - 1, correspondence_meta = Some 1,
                              memory = [1, 2, 3]\<rparr>,
                 info = Some \<lparr>map_flags = GST_MAP_READ, map_data = [1, 2, 3], map_size = 3\<rparr>,
                 mapped = True, mapped_writable = False, owns_buffer = True\<rparr>, 11),
          Inr (\<lparr>ptr = Some \<lparr>GST_BUFFER_PTS = 100000000, GST_BUFFER_DTS = - 1,
                              GST_BUFFER_DURATION = 100000000, GST_BUFFER_OFFSET = 2,
                              GST_BUFFER_OFFSET_END = - 1, correspondence_meta = Some 2,
                              memory = [1, 2, 3]\<rparr>,
                 info = Some \<lparr>map_flags = GST_MAP_READ, map_data = [1, 2, 3], map_size = 3\<rparr>,
                 mapped = True, mapped_writable = False, owns_buffer = True\<rparr>, 12)]"
    unfolding pp A' final bs us pops by (simp add: buffer0_def numeral_3_eq_3)
  show ?thesis using c1 c2 c3 a by blast
qed

text \<open>
  C1, as the specification words it, does not hold of every run. In mode
  \<^verbatim>\<open>DISCARD_OUTPUT_FRAMES\<close> with one slot, two frames are submitted and their results
  delivered in order: the second pair is dropped, the first pop returns the first user
  data and the second pop finds the queue empty. With 101 frames submitted, the first
  pending entry has been evicted when the first result arrives, and the callback throws.
  In mode \<^verbatim>\<open>DISCARD_INPUT_FRAMES\<close> with one slot and no consumer, the second delivery never
  returns. With \<^verbatim>\<open>frame_counter_\<close> at \<open>2^31\<close> the id of the submitted frame is negative as
  an \<^verbatim>\<open>int\<close>, and the lookup runs off the end of the pending queue. A \<^verbatim>\<open>popOutput\<close> on the
  empty queue returns no pair. And when \<^verbatim>\<open>frame_counter_\<close> wraps around \<open>2^64\<close>, the ids in
  the output queue decrease.
\<close>

theorem in_order_claim_counterexample:
  "(let outs = fst (run [submit 10, submit 11, deliver 0, deliver 1, Pop, Pop]
                     (started DISCARD_OUTPUT_FRAMES 1 3))
    in (pushed_of outs, delivered_of outs, map (map_sum id snd) (popped_of outs)))
     = ([Inr True, Inr True], [Inr GST_FLOW_OK, Inr GST_FLOW_OK],
        [Inr 10, Inl UndefinedBehaviour])
   \<and> (let outs = fst (run (map submit [0..<101] @ [deliver 0])
                        (started DISCARD_OUTPUT_FRAMES 200 3))
       in (pushed_of outs, delivered_of outs))
     = (replicate 101 (Inr True), [Inl QueueError])
   \<and> fst (run [submit 10, submit 11, deliver 0, deliver 1] (started DISCARD_INPUT_FRAMES 1 3))
     = [Pushed (Inr True), Pushed (Inr True), Delivered (Inr GST_FLOW_OK), Blocked]
   \<and> fst (run [submit 10, deliver (ucast (2 ^ 31 :: guint64))]
             ((started DISCARD_OUTPUT_FRAMES 5 3)\<lparr>frame_counter := 2 ^ 31\<rparr>))
     = [Pushed (Inr True), Delivered (Inl UndefinedBehaviour)]
   \<and> fst (run [Pop] (started DISCARD_OUTPUT_FRAMES 5 3)) = [Popped (Inl UndefinedBehaviour)]
   \<and> (let r = run [submit 10, submit 11, submit 12, deliver (- 2), deliver 0, deliver 0]
                 ((started DISCARD_OUTPUT_FRAMES 5 3)\<lparr>frame_counter := - 2\<rparr>)
       in (pushed_of (fst r), delivered_of (fst r), output_ids (snd r)))
     = ([Inr True, Inr True, Inr True], [Inr GST_FLOW_OK, Inl QueueError, Inr GST_FLOW_OK],
        [18446744073709551614, 0])"
  by code_simp

end
